theory Spec2Isabelle
  imports Complex_Main "HOL-Library.List_Lexorder" "HOL-Library.Char_ord" "HOL-Library.Log_Nat"
begin

section \<open>Task and session data (types/task.ts, types/session.ts)\<close>

datatype TaskPriority = LOW | MEDIUM | HIGH | CRITICAL

datatype TaskStatus = NOT_STARTED | IN_PROGRESS | COMPLETED | BLOCKED | CANCELLED | FAILED

datatype DependencyType = FINISH_TO_START | START_TO_START | FINISH_TO_FINISH | START_TO_FINISH

datatype SessionType = PLANNING | TASK | VERIFICATION | INTERACTIVE

datatype SessionState = ACTIVE | SESSION_COMPLETED | SUSPENDED | SESSION_FAILED

text \<open>The string values of the enums, as the TypeScript enums declare them.\<close>

fun taskStatusStr :: "TaskStatus \<Rightarrow> string" where
  "taskStatusStr NOT_STARTED = ''not_started''"
| "taskStatusStr IN_PROGRESS = ''in_progress''"
| "taskStatusStr COMPLETED = ''completed''"
| "taskStatusStr BLOCKED = ''blocked''"
| "taskStatusStr CANCELLED = ''cancelled''"
| "taskStatusStr FAILED = ''failed''"

fun sessionStateStr :: "SessionState \<Rightarrow> string" where
  "sessionStateStr ACTIVE = ''active''"
| "sessionStateStr SESSION_COMPLETED = ''completed''"
| "sessionStateStr SUSPENDED = ''suspended''"
| "sessionStateStr SESSION_FAILED = ''failed''"

record TaskDependency =
  dep_taskId :: string
  dep_type :: DependencyType

text \<open>
  A Task, with the fields the modelled operations read or write. Dates are
  milliseconds (\<open>Date.getTime()\<close>); \<open>task_completionPercentage\<close> is
  \<open>progress.completionPercentage\<close> and \<open>task_effortHours\<close> is
  \<open>estimation?.effortHours\<close>.
\<close>

record Task =
  task_id :: string
  task_name :: string
  task_description :: string
  task_status :: TaskStatus
  task_priority :: TaskPriority
  task_orchestrationId :: string
  task_dependencies :: "TaskDependency list"
  task_completionPercentage :: rat
  task_effortHours :: "rat option"
  task_sessionId :: "string option"
  task_createdAt :: int
  task_startedAt :: "int option"
  task_completedAt :: "int option"
  task_updatedAt :: int

record TaskQuery =
  q_orchestrationId :: "string option"
  q_status :: "TaskStatus option"

record UpdateTaskParams =
  p_name :: "string option"
  p_description :: "string option"
  p_status :: "TaskStatus option"
  p_priority :: "TaskPriority option"
  p_dependencies :: "TaskDependency list option"
  p_completionPercentage :: "rat option"
  p_sessionId :: "string option"

text \<open>
  A session object, with the fields of \<open>OrchestrationSession\<close> that the state
  machine and the hierarchy use.
\<close>

record Session =
  sess_id :: string
  sess_type :: SessionType
  sess_orchestrationId :: string
  sess_timestamp :: int
  sess_state :: SessionState
  sess_parentSessionId :: "string option"
  sess_childSessionIds :: "string list"
  sess_lastActivityAt :: int
  sess_completedAt :: "int option"
  sess_failureReason :: "string option"

section \<open>JavaScript built-ins used by the code\<close>

text \<open>
  \<open>Array.prototype.sort\<close> with a comparator is a stable sort; it is modelled as a
  stable insertion sort: an element is placed before the first element it does not
  compare greater than, and elements are inserted from the right.
\<close>

fun insort_cmp :: "('a \<Rightarrow> 'a \<Rightarrow> int) \<Rightarrow> 'a \<Rightarrow> 'a list \<Rightarrow> 'a list" where
  "insort_cmp cmp x [] = [x]"
| "insort_cmp cmp x (y # ys) = (if cmp x y \<le> 0 then x # y # ys else y # insort_cmp cmp x ys)"

definition sort_cmp :: "('a \<Rightarrow> 'a \<Rightarrow> int) \<Rightarrow> 'a list \<Rightarrow> 'a list" where
  "sort_cmp cmp xs = foldr (insort_cmp cmp) xs []"

text \<open>Truthiness of an optional string: \<open>undefined\<close> and the empty string are falsy.\<close>

fun truthy_str :: "string option \<Rightarrow> bool" where
  "truthy_str None = False"
| "truthy_str (Some s) = (s \<noteq> [])"

text \<open>\<open>Array.prototype.join\<close>.\<close>

fun join :: "string \<Rightarrow> string list \<Rightarrow> string" where
  "join sep [] = []"
| "join sep [x] = x"
| "join sep (x # y # ys) = x @ sep @ join sep (y # ys)"

text \<open>
  JavaScript numbers are IEEE 754 binary64 values: \<open>Num x\<close> is the finite double of
  value \<open>x\<close>, and every arithmetic operation rounds its exact result to the nearest
  double, ties to the even mantissa (\<open>toDouble\<close>): the result is taken to 53
  significant bits, or to a multiple of \<open>2^-1074\<close> below the normal range, and a result
  that rounds to \<open>2^1024\<close> or more is an infinity. The sign of zero is not modelled:
  no operation of the code depends on it. Counters and array lengths are integers below
  \<open>2^53\<close> (an array has fewer than \<open>2^32\<close> elements) and are doubles exactly.
  \<open>Math.round\<close> rounds to the nearest integer, halves upwards.
\<close>

datatype jsnum = Num rat | NaN | PosInfinity | NegInfinity

text \<open>Rounding to the nearest integer, halves to the even one.\<close>

definition roundEven :: "rat \<Rightarrow> int" where
  "roundEven x =
     (let f = \<lfloor>x\<rfloor>; d = x - of_int f
      in if d < 1 / 2 then f else if 1 / 2 < d then f + 1 else if even f then f else f + 1)"

text \<open>The binary exponent of a positive number \<open>x\<close>: the \<open>e\<close> with \<open>2^e \<le> x < 2^(e+1)\<close>.\<close>

definition exponent :: "rat \<Rightarrow> int" where
  "exponent x =
     (let e = bitlen (fst (quotient_of x)) - bitlen (snd (quotient_of x))
      in if 2 powi e \<le> x then e else e - 1)"

definition roundMagnitude :: "rat \<Rightarrow> rat" where
  "roundMagnitude a =
     (let e = max (exponent a) (- 1022); q = 2 powi (e - 52)
      in of_int (roundEven (a / q)) * q)"

definition toDouble :: "rat \<Rightarrow> jsnum" where
  "toDouble x =
     (if x = 0 then Num 0
      else
        let r = roundMagnitude \<bar>x\<bar>
        in if 2 powi 1024 \<le> r then (if x < 0 then NegInfinity else PosInfinity)
           else Num (if x < 0 then - r else r))"

fun js_sign :: "jsnum \<Rightarrow> int" where
  "js_sign (Num a) = (if a < 0 then -1 else 1)"
| "js_sign PosInfinity = 1"
| "js_sign NegInfinity = -1"
| "js_sign NaN = 1"

definition js_infinity :: "int \<Rightarrow> jsnum" where
  "js_infinity s = (if s < 0 then NegInfinity else PosInfinity)"

fun js_plus :: "jsnum \<Rightarrow> jsnum \<Rightarrow> jsnum" where
  "js_plus (Num a) (Num b) = toDouble (a + b)"
| "js_plus NaN _ = NaN"
| "js_plus _ NaN = NaN"
| "js_plus PosInfinity NegInfinity = NaN"
| "js_plus NegInfinity PosInfinity = NaN"
| "js_plus PosInfinity _ = PosInfinity"
| "js_plus NegInfinity _ = NegInfinity"
| "js_plus (Num a) PosInfinity = PosInfinity"
| "js_plus (Num a) NegInfinity = NegInfinity"

fun js_times :: "jsnum \<Rightarrow> jsnum \<Rightarrow> jsnum" where
  "js_times (Num a) (Num b) = toDouble (a * b)"
| "js_times NaN _ = NaN"
| "js_times _ NaN = NaN"
| "js_times (Num a) y = (if a = 0 then NaN else js_infinity (js_sign (Num a) * js_sign y))"
| "js_times x (Num b) = (if b = 0 then NaN else js_infinity (js_sign x * js_sign (Num b)))"
| "js_times x y = js_infinity (js_sign x * js_sign y)"

fun js_div :: "jsnum \<Rightarrow> jsnum \<Rightarrow> jsnum" where
  "js_div (Num a) (Num b) =
     (if b = 0 then (if a = 0 then NaN else js_infinity (js_sign (Num a)))
      else toDouble (a / b))"
| "js_div NaN _ = NaN"
| "js_div _ NaN = NaN"
| "js_div (Num a) y = Num 0"
| "js_div x (Num b) = js_infinity (js_sign x * js_sign (Num b))"
| "js_div x y = NaN"

fun Math_round :: "jsnum \<Rightarrow> jsnum" where
  "Math_round (Num x) = Num (of_int \<lfloor>x + 1 / 2\<rfloor>)"
| "Math_round NaN = NaN"
| "Math_round PosInfinity = PosInfinity"
| "Math_round NegInfinity = NegInfinity"

text \<open>Truthiness of a number: zero and \<open>NaN\<close> are falsy.\<close>

fun truthy_num :: "jsnum \<Rightarrow> bool" where
  "truthy_num (Num x) = (x \<noteq> 0)"
| "truthy_num NaN = False"
| "truthy_num _ = True"

text \<open>The error classes: \<open>StorageError\<close> and its subclasses, and the plain \<open>Error\<close>, each with its message.\<close>

datatype error = StorageError string | ValidationError string | CorruptionError string | JsError string

section \<open>TaskManifest: the task store\<close>

text \<open>
  The tasks directory is the list of the tasks its files hold, in the order in which
  \<open>fs.readdir\<close> lists the files, each file named after the id of its task.
  \<open>loadTask\<close> reads the file of an id. The program does not determine where
  \<open>readdir\<close> lists a new file: \<open>saveTask\<close> puts it last, which is one possible
  listing, and \<open>sameFiles\<close> relates a store to every listing of the same files; what
  depends on the order of the listing is stated for every such listing.
\<close>

definition loadTask :: "Task list \<Rightarrow> string \<Rightarrow> Task option" where
  "loadTask store taskId = find (\<lambda>t. task_id t = taskId) store"

fun saveTask :: "Task list \<Rightarrow> Task \<Rightarrow> Task list" where
  "saveTask [] task = [task]"
| "saveTask (t # ts) task = (if task_id t = task_id task then task # ts else t # saveTask ts task)"

definition sameFiles :: "Task list \<Rightarrow> Task list \<Rightarrow> bool" where
  "sameFiles store listing \<longleftrightarrow> set listing = set store \<and> distinct (map task_id listing)"

definition taskMatchesQuery :: "Task \<Rightarrow> TaskQuery \<Rightarrow> bool" where
  "taskMatchesQuery task query =
     (if truthy_str (q_orchestrationId query)
           \<and> Some (task_orchestrationId task) \<noteq> q_orchestrationId query then False
      else if q_status query \<noteq> None \<and> Some (task_status task) \<noteq> q_status query then False
      else True)"

definition queryTasks :: "Task list \<Rightarrow> TaskQuery \<Rightarrow> Task list" where
  "queryTasks store query =
     sort_cmp (\<lambda>a b. task_createdAt b - task_createdAt a)
       (filter (\<lambda>t. taskMatchesQuery t query) store)"

definition updateTask :: "Task list \<Rightarrow> string \<Rightarrow> UpdateTaskParams \<Rightarrow> int \<Rightarrow> Task option \<times> Task list" where
  "updateTask store taskId params now =
     (case loadTask store taskId of
        None \<Rightarrow> (None, store)
      | Some task \<Rightarrow>
          let progressUpdate =
                (case p_completionPercentage params of
                   Some v \<Rightarrow> v | None \<Rightarrow> task_completionPercentage task);
              merged = task
                \<lparr> task_name := (case p_name params of Some v \<Rightarrow> v | None \<Rightarrow> task_name task),
                  task_description :=
                    (case p_description params of Some v \<Rightarrow> v | None \<Rightarrow> task_description task),
                  task_status := (case p_status params of Some v \<Rightarrow> v | None \<Rightarrow> task_status task),
                  task_priority :=
                    (case p_priority params of Some v \<Rightarrow> v | None \<Rightarrow> task_priority task),
                  task_dependencies :=
                    (case p_dependencies params of Some v \<Rightarrow> v | None \<Rightarrow> task_dependencies task),
                  task_sessionId :=
                    (case p_sessionId params of Some v \<Rightarrow> Some v | None \<Rightarrow> task_sessionId task),
                  task_completionPercentage := progressUpdate,
                  task_updatedAt := now \<rparr>;
              stamped1 =
                (if p_status params = Some COMPLETED \<and> task_status task \<noteq> COMPLETED
                 then merged \<lparr> task_completedAt := Some now \<rparr> else merged);
              updatedTask =
                (if p_status params \<noteq> None \<and> p_status params \<noteq> Some NOT_STARTED
                      \<and> task_status task = NOT_STARTED
                 then stamped1 \<lparr> task_startedAt := Some now \<rparr> else stamped1)
          in (Some updatedTask, saveTask store updatedTask))"

subsection \<open>getTaskStatistics\<close>

record TaskStatistics =
  st_total :: nat
  st_byStatus :: "TaskStatus \<Rightarrow> nat"
  st_byPriority :: "TaskPriority \<Rightarrow> nat"
  st_completionPercentage :: jsnum
  st_averageProgress :: jsnum
  st_estimatedTotalHours :: jsnum
  st_actualTotalHours :: jsnum

text \<open>
  The loop body: the counters, \<open>totalProgress\<close> and the estimated hours. The numbers a
  task record holds are read from its file as doubles.
\<close>

definition statsStep ::
  "Task \<Rightarrow> (TaskStatus \<Rightarrow> nat) \<times> (TaskPriority \<Rightarrow> nat) \<times> jsnum \<times> jsnum
        \<Rightarrow> (TaskStatus \<Rightarrow> nat) \<times> (TaskPriority \<Rightarrow> nat) \<times> jsnum \<times> jsnum" where
  "statsStep task acc =
     (case acc of (byStatus, byPriority, totalProgress, estimated) \<Rightarrow>
        (byStatus (task_status task := byStatus (task_status task) + 1),
         byPriority (task_priority task := byPriority (task_priority task) + 1),
         js_plus totalProgress (toDouble (task_completionPercentage task)),
         (case task_effortHours task of
            Some h \<Rightarrow>
              if truthy_num (toDouble h) then js_plus estimated (toDouble h) else estimated
          | None \<Rightarrow> estimated)))"

definition getTaskStatistics :: "Task list \<Rightarrow> string \<Rightarrow> TaskStatistics" where
  "getTaskStatistics store orchestrationId =
     (let tasks = queryTasks store \<lparr> q_orchestrationId = Some orchestrationId, q_status = None \<rparr>;
          acc = fold statsStep tasks (\<lambda>_. 0, \<lambda>_. 0, Num 0, Num 0)
      in case acc of (byStatus, byPriority, totalProgress, estimated) \<Rightarrow>
        \<lparr> st_total = length tasks,
          st_byStatus = byStatus,
          st_byPriority = byPriority,
          st_completionPercentage =
            Math_round
              (js_times
                 (js_div (Num (of_nat (byStatus COMPLETED))) (Num (of_nat (length tasks))))
                 (Num 100)),
          st_averageProgress =
            (if length tasks > 0
             then Math_round (js_div totalProgress (Num (of_nat (length tasks))))
             else Num 0),
          st_estimatedTotalHours = estimated,
          st_actualTotalHours = Num 0 \<rparr>)"

subsection \<open>getNextTask, createTask\<close>

fun priorityOrder :: "TaskPriority \<Rightarrow> int" where
  "priorityOrder CRITICAL = 4"
| "priorityOrder HIGH = 3"
| "priorityOrder MEDIUM = 2"
| "priorityOrder LOW = 1"

definition nextTaskCompare :: "Task \<Rightarrow> Task \<Rightarrow> int" where
  "nextTaskCompare a b =
     (if length (task_dependencies a) = 0 \<and> length (task_dependencies b) > 0 then -1
      else if length (task_dependencies a) > 0 \<and> length (task_dependencies b) = 0 then 1
      else priorityOrder (task_priority b) - priorityOrder (task_priority a))"

definition getNextTask :: "Task list \<Rightarrow> string \<Rightarrow> Task option" where
  "getNextTask store orchestrationId =
     (let tasks = queryTasks store
            \<lparr> q_orchestrationId = Some orchestrationId, q_status = Some NOT_STARTED \<rparr>
      in if length tasks = 0 then None
         else case sort_cmp nextTaskCompare tasks of [] \<Rightarrow> None | t # _ \<Rightarrow> Some t)"

record CreateTaskParams =
  ct_name :: string
  ct_description :: string
  ct_priority :: "TaskPriority option"
  ct_orchestrationId :: string
  ct_dependencies :: "TaskDependency list option"
  ct_effortHours :: "rat option"

definition createTask :: "Task list \<Rightarrow> CreateTaskParams \<Rightarrow> string \<Rightarrow> int \<Rightarrow> Task \<times> Task list" where
  "createTask store params idSuffix now =
     (let task = \<lparr> task_id = ''task-'' @ idSuffix,
                   task_name = ct_name params,
                   task_description = ct_description params,
                   task_status = NOT_STARTED,
                   task_priority = (case ct_priority params of Some pr \<Rightarrow> pr | None \<Rightarrow> MEDIUM),
                   task_orchestrationId = ct_orchestrationId params,
                   task_dependencies = (case ct_dependencies params of Some ds \<Rightarrow> ds | None \<Rightarrow> []),
                   task_completionPercentage = 0,
                   task_effortHours = ct_effortHours params,
                   task_sessionId = None,
                   task_createdAt = now,
                   task_startedAt = None,
                   task_completedAt = None,
                   task_updatedAt = now \<rparr>
      in (task, saveTask store task))"

section \<open>TaskExecutor: checkDependencies\<close>

record DependencyCheckResult =
  allSatisfied :: bool
  satisfiedDependencies :: "TaskDependency list"
  unsatisfiedDependencies :: "TaskDependency list"
  blockedBy :: "string list"

fun isDependencySatisfied :: "TaskDependency \<Rightarrow> Task \<Rightarrow> bool" where
  "isDependencySatisfied dependency dependentTask =
     (case dep_type dependency of
        FINISH_TO_START \<Rightarrow> task_status dependentTask = COMPLETED
      | START_TO_START \<Rightarrow>
          task_status dependentTask = IN_PROGRESS \<or> task_status dependentTask = COMPLETED
      | FINISH_TO_FINISH \<Rightarrow> task_status dependentTask = COMPLETED
      | START_TO_FINISH \<Rightarrow>
          task_status dependentTask = IN_PROGRESS \<or> task_status dependentTask = COMPLETED)"

definition checkStep :: "Task list \<Rightarrow> TaskDependency \<Rightarrow> DependencyCheckResult \<Rightarrow> DependencyCheckResult" where
  "checkStep store dependency result =
     (case loadTask store (dep_taskId dependency) of
        None \<Rightarrow>
          result \<lparr> allSatisfied := False,
                   unsatisfiedDependencies := unsatisfiedDependencies result @ [dependency],
                   blockedBy := blockedBy result
                     @ [''Dependent task '' @ dep_taskId dependency @ '' not found''] \<rparr>
      | Some dependentTask \<Rightarrow>
          if isDependencySatisfied dependency dependentTask
          then result \<lparr> satisfiedDependencies := satisfiedDependencies result @ [dependency] \<rparr>
          else result \<lparr> allSatisfied := False,
                        unsatisfiedDependencies := unsatisfiedDependencies result @ [dependency],
                        blockedBy := blockedBy result
                          @ [''Task '' @ task_name dependentTask @ '' (''
                             @ taskStatusStr (task_status dependentTask) @ '')''] \<rparr>)"

definition checkDependencies :: "Task list \<Rightarrow> string \<Rightarrow> error + DependencyCheckResult" where
  "checkDependencies store taskId =
     (case loadTask store taskId of
        None \<Rightarrow> Inl (JsError (''Task '' @ taskId @ '' not found''))
      | Some task \<Rightarrow>
          Inr (fold (checkStep store) (task_dependencies task)
                 \<lparr> allSatisfied = True, satisfiedDependencies = [],
                   unsatisfiedDependencies = [], blockedBy = [] \<rparr>))"

section \<open>Transition tables (ValidationUtils)\<close>

fun validSessionTransitions :: "SessionState \<Rightarrow> SessionState list" where
  "validSessionTransitions ACTIVE = [SUSPENDED, SESSION_COMPLETED, SESSION_FAILED]"
| "validSessionTransitions SUSPENDED = [ACTIVE, SESSION_COMPLETED, SESSION_FAILED]"
| "validSessionTransitions SESSION_COMPLETED = []"
| "validSessionTransitions SESSION_FAILED = [ACTIVE]"

definition validateStateTransition :: "SessionState \<Rightarrow> SessionState \<Rightarrow> bool \<times> string option" where
  "validateStateTransition from to =
     (if from = to then (True, None)
      else let allowedStates = validSessionTransitions from in
        if to \<notin> set allowedStates then
          (False, Some (''Invalid transition from '' @ sessionStateStr from @ '' to ''
             @ sessionStateStr to @ ''. Allowed transitions: ''
             @ join '', '' (map sessionStateStr allowedStates)))
        else (True, None))"

fun validTaskTransitions :: "TaskStatus \<Rightarrow> TaskStatus list" where
  "validTaskTransitions NOT_STARTED = [IN_PROGRESS, CANCELLED]"
| "validTaskTransitions IN_PROGRESS = [COMPLETED, BLOCKED, FAILED, CANCELLED]"
| "validTaskTransitions BLOCKED = [IN_PROGRESS, CANCELLED]"
| "validTaskTransitions COMPLETED = []"
| "validTaskTransitions FAILED = [IN_PROGRESS, CANCELLED]"
| "validTaskTransitions CANCELLED = [NOT_STARTED]"

definition validateTaskStatusTransition :: "TaskStatus \<Rightarrow> TaskStatus \<Rightarrow> bool \<times> string option" where
  "validateTaskStatusTransition from to =
     (let allowedStates = validTaskTransitions from in
        if to \<notin> set allowedStates then
          (False, Some (''Invalid task status transition from '' @ taskStatusStr from @ '' to ''
             @ taskStatusStr to @ ''. Allowed transitions: ''
             @ join '', '' (map taskStatusStr allowedStates)))
        else (True, None))"

section \<open>OrchestrationSession.updateState\<close>

text \<open>
  The method returns nothing and raises nothing; \<open>now\<close> is the clock reading of the
  call. Listeners only observe the event.
\<close>

definition updateState :: "SessionState \<Rightarrow> string option \<Rightarrow> int \<Rightarrow> Session \<Rightarrow> Session" where
  "updateState newState reason now s =
     (let s1 = s \<lparr> sess_state := newState, sess_lastActivityAt := now \<rparr>
      in if newState = SESSION_COMPLETED then s1 \<lparr> sess_completedAt := Some now \<rparr>
         else if newState = SESSION_FAILED then s1 \<lparr> sess_failureReason := reason \<rparr>
         else s1)"

section \<open>StateManager: session files and backups\<close>

record StorageConfig =
  enableBackups :: bool
  maxBackups :: nat

text \<open>
  The sessions directory and the backups directory, each a list of (file name, content)
  in directory order; a session file is named by its stem (without \<open>.json\<close>), and
  only files that parse as JSON are represented. File writes succeed (the retry on a
  busy file and I/O failures are outside the model). A clock reading is the time in
  milliseconds and its ISO string with \<open>:\<close> and \<open>.\<close> replaced by \<open>-\<close>.
\<close>

record Storage =
  sessionFiles :: "(string \<times> Session) list"
  backupFiles :: "(string \<times> Session) list"

record Clock =
  clk_now :: int
  clk_stamp :: string

fun writeFile :: "(string \<times> 'a) list \<Rightarrow> string \<Rightarrow> 'a \<Rightarrow> (string \<times> 'a) list" where
  "writeFile [] name v = [(name, v)]"
| "writeFile ((n, x) # fs) name v =
     (if n = name then (n, v) # fs else (n, x) # writeFile fs name v)"

definition unlink :: "(string \<times> 'a) list \<Rightarrow> string \<Rightarrow> (string \<times> 'a) list" where
  "unlink fs name = filter (\<lambda>f. fst f \<noteq> name) fs"

definition startsWith :: "string \<Rightarrow> string \<Rightarrow> bool" where
  "startsWith s pre = (take (length pre) s = pre)"

definition endsWith :: "string \<Rightarrow> string \<Rightarrow> bool" where
  "endsWith s suf = (length suf \<le> length s \<and> drop (length s - length suf) s = suf)"

text \<open>
  \<open>ValidationUtils.validateSession\<close>: of the schema, the two checks a typed session
  object can fail (the enum and array checks hold by the types of the record).
\<close>

definition validateSession :: "Session \<Rightarrow> bool \<times> string list" where
  "validateSession data =
     (let errors =
            (if sess_id data = [] then [''id: Session ID cannot be empty''] else [])
          @ (if sess_orchestrationId data = []
             then [''orchestrationId: Orchestration ID cannot be empty''] else [])
      in (errors = [], errors))"

definition cleanupBackups :: "StorageConfig \<Rightarrow> string \<Rightarrow> string \<Rightarrow> Storage \<Rightarrow> Storage" where
  "cleanupBackups cfg kind ident st =
     (if maxBackups cfg = 0 then st
      else
        let backupNames =
              rev (sort (filter
                (\<lambda>file. startsWith file (kind @ ''-'' @ ident @ ''-'') \<and> endsWith file ''.json'')
                (map fst (backupFiles st))))
        in if length backupNames > maxBackups cfg
           then st \<lparr> backupFiles :=
                  filter (\<lambda>f. fst f \<notin> set (drop (maxBackups cfg) backupNames)) (backupFiles st) \<rparr>
           else st)"

text \<open>\<open>createBackup('sessions', id)\<close>; a failure inside it is only logged.\<close>

definition createBackup :: "StorageConfig \<Rightarrow> Clock \<Rightarrow> string \<Rightarrow> Storage \<Rightarrow> Storage" where
  "createBackup cfg clock ident st =
     (if \<not> enableBackups cfg then st
      else case map_of (sessionFiles st) ident of
        None \<Rightarrow> st
      | Some content \<Rightarrow>
          cleanupBackups cfg ''sessions'' ident
            (st \<lparr> backupFiles :=
                writeFile (backupFiles st)
                  (''sessions-'' @ ident @ ''-'' @ clk_stamp clock @ ''.json'') content \<rparr>))"

definition saveSession :: "StorageConfig \<Rightarrow> Clock \<Rightarrow> Session \<Rightarrow> Storage \<Rightarrow> (error + unit) \<times> Storage" where
  "saveSession cfg clock session st =
     (let validation = validateSession session in
      if \<not> fst validation
      then (Inl (StorageError (''Session validation failed: '' @ join '', '' (snd validation))), st)
      else
        let st1 = (if enableBackups cfg then createBackup cfg clock (sess_id session) st else st)
        in (Inr (), st1 \<lparr> sessionFiles := writeFile (sessionFiles st1) (sess_id session) session \<rparr>))"

definition loadSession :: "Storage \<Rightarrow> string \<Rightarrow> error + Session option" where
  "loadSession st sessionId =
     (case map_of (sessionFiles st) sessionId of
        None \<Rightarrow> Inr None
      | Some parsed \<Rightarrow>
          let validation = validateSession parsed in
          if \<not> fst validation
          then Inl (StorageError (''Session '' @ sessionId @ '' validation failed: ''
                 @ join '', '' (snd validation)))
          else Inr (Some parsed))"

text \<open>\<open>StateManager.deleteSession\<close>: \<open>fs.unlink\<close> rejects when the file is missing.\<close>

definition storage_deleteSession :: "StorageConfig \<Rightarrow> Clock \<Rightarrow> string \<Rightarrow> Storage \<Rightarrow> (error + unit) \<times> Storage" where
  "storage_deleteSession cfg clock sessionId st =
     (let st1 = (if enableBackups cfg then createBackup cfg clock sessionId st else st)
      in case map_of (sessionFiles st1) sessionId of
           None \<Rightarrow> (Inl (StorageError (''Failed to delete session '' @ sessionId)), st1)
         | Some _ \<Rightarrow> (Inr (), st1 \<lparr> sessionFiles := unlink (sessionFiles st1) sessionId \<rparr>))"

record SessionQuery =
  sq_orchestrationId :: "string option"
  sq_state :: "SessionState option"

definition matchesQuery :: "Session \<Rightarrow> SessionQuery \<Rightarrow> bool" where
  "matchesQuery session query =
     (if truthy_str (sq_orchestrationId query)
           \<and> Some (sess_orchestrationId session) \<noteq> sq_orchestrationId query then False
      else if sq_state query \<noteq> None \<and> Some (sess_state session) \<noteq> sq_state query then False
      else True)"

text \<open>
  \<open>StateManager.querySessions\<close>: every file is loaded; one that fails to load is
  skipped; the matches are sorted newest first.
\<close>

definition storage_querySessions :: "Storage \<Rightarrow> SessionQuery \<Rightarrow> Session list" where
  "storage_querySessions st query =
     sort_cmp (\<lambda>a b. sess_timestamp b - sess_timestamp a)
       (concat (map (\<lambda>file.
           case loadSession st (fst file) of
             Inr (Some session) \<Rightarrow> (if matchesQuery session query then [session] else [])
           | _ \<Rightarrow> [])
         (sessionFiles st)))"

section \<open>OrchestrationSession: child bookkeeping\<close>

definition addChildSession :: "string \<Rightarrow> int \<Rightarrow> Session \<Rightarrow> Session" where
  "addChildSession childSessionId now s =
     (if childSessionId \<notin> set (sess_childSessionIds s)
      then s \<lparr> sess_childSessionIds := sess_childSessionIds s @ [childSessionId],
               sess_lastActivityAt := now \<rparr>
      else s)"

definition removeChildSession :: "string \<Rightarrow> int \<Rightarrow> Session \<Rightarrow> Session" where
  "removeChildSession childSessionId now s =
     (if childSessionId \<in> set (sess_childSessionIds s)
      then s \<lparr> sess_childSessionIds := remove1 childSessionId (sess_childSessionIds s),
               sess_lastActivityAt := now \<rparr>
      else s)"

record CreateSessionParams =
  cp_type :: SessionType
  cp_orchestrationId :: string
  cp_parentSessionId :: "string option"

text \<open>
  The constructor. The id is \<open>session-\<close> followed by the time and a random string;
  that suffix is the parameter \<open>idSuffix\<close>.
\<close>

definition newSession :: "CreateSessionParams \<Rightarrow> string \<Rightarrow> int \<Rightarrow> Session" where
  "newSession params idSuffix now =
     \<lparr> sess_id = ''session-'' @ idSuffix, sess_type = cp_type params,
       sess_orchestrationId = cp_orchestrationId params, sess_timestamp = now,
       sess_state = ACTIVE, sess_parentSessionId = cp_parentSessionId params,
       sess_childSessionIds = [], sess_lastActivityAt = now, sess_completedAt = None,
       sess_failureReason = None \<rparr>"

section \<open>SessionRegistry\<close>

text \<open>
  The registry holds session objects in a Map keyed by id, beside the storage. An
  object stays alive, and is mutated through the references a running call holds,
  after its key is deleted from the Map; so the objects are kept by key in
  \<open>reg_objects\<close>, and \<open>reg_cached\<close> is the set of keys the Map holds. The saves that
  the event listener starts without awaiting them are not part of the model.
\<close>

record Registry =
  reg_objects :: "string \<rightharpoonup> Session"
  reg_cached :: "string set"
  reg_storage :: Storage

definition sessions_get :: "Registry \<Rightarrow> string \<Rightarrow> Session option" where
  "sessions_get r k = (if k \<in> reg_cached r then reg_objects r k else None)"

definition sessions_set :: "Registry \<Rightarrow> string \<Rightarrow> Session \<Rightarrow> Registry" where
  "sessions_set r k s = r \<lparr> reg_objects := (reg_objects r)(k \<mapsto> s), reg_cached := insert k (reg_cached r) \<rparr>"

definition sessions_delete :: "Registry \<Rightarrow> string \<Rightarrow> Registry" where
  "sessions_delete r k = r \<lparr> reg_cached := reg_cached r - {k} \<rparr>"

definition createSession ::
  "StorageConfig \<Rightarrow> Clock \<Rightarrow> CreateSessionParams \<Rightarrow> string \<Rightarrow> Registry \<Rightarrow> (error + Session) \<times> Registry" where
  "createSession cfg clock params idSuffix r =
     (let session = newSession params idSuffix (clk_now clock);
          r1 = sessions_set r (sess_id session) session
      in case saveSession cfg clock session (reg_storage r1) of
           (Inl e, st) \<Rightarrow> (Inl e, r1 \<lparr> reg_storage := st \<rparr>)
         | (Inr _, st) \<Rightarrow>
             let r2 = r1 \<lparr> reg_storage := st \<rparr> in
             (case cp_parentSessionId params of
                None \<Rightarrow> (Inr session, r2)
              | Some parentId \<Rightarrow>
                  if parentId = [] then (Inr session, r2)
                  else
                    (case sessions_get r2 parentId of
                       None \<Rightarrow> (Inr session, r2)
                     | Some parentSession \<Rightarrow>
                         let parent' = addChildSession (sess_id session) (clk_now clock) parentSession;
                             r3 = r2 \<lparr> reg_objects := (reg_objects r2)(parentId \<mapsto> parent') \<rparr>;
                             created = (if parentId = sess_id session then parent' else session)
                         in case saveSession cfg clock parent' (reg_storage r3) of
                              (Inl e, st') \<Rightarrow> (Inl e, r3 \<lparr> reg_storage := st' \<rparr>)
                            | (Inr _, st') \<Rightarrow> (Inr created, r3 \<lparr> reg_storage := st' \<rparr>))))"

definition getSession :: "Registry \<Rightarrow> string \<Rightarrow> (error + Session option) \<times> Registry" where
  "getSession r sessionId =
     (case sessions_get r sessionId of
        Some session \<Rightarrow> (Inr (Some session), r)
      | None \<Rightarrow>
          (case loadSession (reg_storage r) sessionId of
             Inl e \<Rightarrow> (Inl e, r)
           | Inr None \<Rightarrow> (Inr None, r)
           | Inr (Some sessionData) \<Rightarrow> (Inr (Some sessionData), sessions_set r sessionId sessionData)))"

text \<open>
  The loop of \<open>SessionRegistry.querySessions\<close>: the cached object of each stored
  record, or a new object made from the record and cached.
\<close>

fun attachSessions :: "Session list \<Rightarrow> Registry \<Rightarrow> Session list \<times> Registry" where
  "attachSessions [] r = ([], r)"
| "attachSessions (d # ds) r =
     (case sessions_get r (sess_id d) of
        Some session \<Rightarrow>
          (case attachSessions ds r of (sessions, r') \<Rightarrow> (session # sessions, r'))
      | None \<Rightarrow>
          (case attachSessions ds (sessions_set r (sess_id d) d) of
             (sessions, r') \<Rightarrow> (d # sessions, r')))"

definition querySessions :: "Registry \<Rightarrow> SessionQuery \<Rightarrow> Session list \<times> Registry" where
  "querySessions r query = attachSessions (storage_querySessions (reg_storage r) query) r"

record RelatedSessions =
  rel_parent :: "Session option"
  rel_children :: "Session list"
  rel_siblings :: "Session list"
  rel_predecessors :: "Session list"
  rel_successors :: "Session list"

definition findRelatedSessions :: "Registry \<Rightarrow> string \<Rightarrow> (error + RelatedSessions) \<times> Registry" where
  "findRelatedSessions r sessionId =
     (case getSession r sessionId of
        (Inl e, r1) \<Rightarrow> (Inl e, r1)
      | (Inr None, r1) \<Rightarrow> (Inl (JsError (''Session '' @ sessionId @ '' not found'')), r1)
      | (Inr (Some session), r1) \<Rightarrow>
          (case querySessions r1
                  \<lparr> sq_orchestrationId = Some (sess_orchestrationId session), sq_state = None \<rparr> of
             (allSessions, r2) \<Rightarrow>
               (Inr \<lparr> rel_parent =
                        (if truthy_str (sess_parentSessionId session)
                         then find (\<lambda>s. Some (sess_id s) = sess_parentSessionId session) allSessions
                         else None),
                      rel_children =
                        filter (\<lambda>s. sess_parentSessionId s = Some sessionId) allSessions,
                      rel_siblings =
                        (if truthy_str (sess_parentSessionId session)
                         then filter (\<lambda>s. sess_parentSessionId s = sess_parentSessionId session
                                          \<and> sess_id s \<noteq> sessionId) allSessions
                         else []),
                      rel_predecessors =
                        filter (\<lambda>s. sess_id s \<noteq> sessionId \<and>
                            (case sess_completedAt s of
                               None \<Rightarrow> False
                             | Some c \<Rightarrow> c \<le> sess_timestamp session)) allSessions,
                      rel_successors =
                        (case sess_completedAt session of
                           None \<Rightarrow> []
                         | Some c \<Rightarrow>
                             filter (\<lambda>s. sess_id s \<noteq> sessionId \<and> c \<le> sess_timestamp s) allSessions) \<rparr>,
                r2)))"

subsection \<open>deleteSession\<close>

text \<open>The part of \<open>deleteSession\<close> that takes the session off its cached parent's list.\<close>

definition detachFromParent ::
  "StorageConfig \<Rightarrow> Clock \<Rightarrow> string \<Rightarrow> Session \<Rightarrow> Registry \<Rightarrow> (error + unit) \<times> Registry" where
  "detachFromParent cfg clock sessionId session r =
     (case sess_parentSessionId session of
        None \<Rightarrow> (Inr (), r)
      | Some parentId \<Rightarrow>
          if parentId = [] then (Inr (), r)
          else
            (case sessions_get r parentId of
               None \<Rightarrow> (Inr (), r)
             | Some parentSession \<Rightarrow>
                 let parent' = removeChildSession sessionId (clk_now clock) parentSession;
                     r1 = r \<lparr> reg_objects := (reg_objects r)(parentId \<mapsto> parent') \<rparr>
                 in case saveSession cfg clock parent' (reg_storage r1) of
                      (Inl e, st) \<Rightarrow> (Inl e, r1 \<lparr> reg_storage := st \<rparr>)
                    | (Inr _, st) \<Rightarrow> (Inr (), r1 \<lparr> reg_storage := st \<rparr>)))"

text \<open>The end of \<open>deleteSession\<close>: off the Map, then off the storage.\<close>

definition finishDelete ::
  "StorageConfig \<Rightarrow> Clock \<Rightarrow> string \<Rightarrow> Registry \<Rightarrow> (error + bool) \<times> Registry" where
  "finishDelete cfg clock sessionId r =
     (let r1 = sessions_delete r sessionId
      in case storage_deleteSession cfg clock sessionId (reg_storage r1) of
           (Inl e, st) \<Rightarrow> (Inl e, r1 \<lparr> reg_storage := st \<rparr>)
         | (Inr _, st) \<Rightarrow> (Inr True, r1 \<lparr> reg_storage := st \<rparr>))"

text \<open>
  \<open>deleteSession\<close> calls itself for each child, inside a \<open>for ... of\<close> over the live
  array \<open>session.childSessionIds\<close>: the iterator reads, at each step, the element at
  its index in the array as it is then. The first argument is fuel, one unit per call
  and per loop step; \<open>None\<close> is a recursion that has not returned within it.
\<close>

fun deleteSession ::
  "nat \<Rightarrow> StorageConfig \<Rightarrow> Clock \<Rightarrow> string \<Rightarrow> Registry \<Rightarrow> ((error + bool) \<times> Registry) option"
and deleteChildren ::
  "nat \<Rightarrow> StorageConfig \<Rightarrow> Clock \<Rightarrow> string \<Rightarrow> nat \<Rightarrow> Registry \<Rightarrow> ((error + unit) \<times> Registry) option"
where
  "deleteSession 0 cfg clock sessionId r = None"
| "deleteSession (Suc n) cfg clock sessionId r =
     (case sessions_get r sessionId of
        None \<Rightarrow> Some (finishDelete cfg clock sessionId r)
      | Some session \<Rightarrow>
          (case detachFromParent cfg clock sessionId session r of
             (Inl e, r1) \<Rightarrow> Some (Inl e, r1)
           | (Inr _, r1) \<Rightarrow>
               (case deleteChildren n cfg clock sessionId 0 r1 of
                  None \<Rightarrow> None
                | Some (Inl e, r2) \<Rightarrow> Some (Inl e, r2)
                | Some (Inr _, r2) \<Rightarrow> Some (finishDelete cfg clock sessionId r2))))"
| "deleteChildren 0 cfg clock sessionId i r = None"
| "deleteChildren (Suc n) cfg clock sessionId i r =
     (case reg_objects r sessionId of
        None \<Rightarrow> Some (Inr (), r)
      | Some session \<Rightarrow>
          if i < length (sess_childSessionIds session)
          then
            (case deleteSession n cfg clock (sess_childSessionIds session ! i) r of
               None \<Rightarrow> None
             | Some (Inl e, r1) \<Rightarrow> Some (Inl e, r1)
             | Some (Inr _, r1) \<Rightarrow> deleteChildren n cfg clock sessionId (i + 1) r1)
          else Some (Inr (), r))"

section \<open>RecoveryUtils\<close>




text \<open>A non-negative integer in decimal, as a template string prints \<open>Date.now()\<close>.\<close>

fun decimal :: "nat \<Rightarrow> string" where
  "decimal n = (if n < 10 then [char_of (48 + n)] else decimal (n div 10) @ [char_of (48 + n mod 10)])"















text \<open>
  The store the recovery works on: the data files (path and text) and the backups
  directory, whose files are copies or metadata documents, each with its modification
  time.
\<close>

record BackupMetadata =
  bm_originalPath :: string
  bm_backupPath :: string
  bm_timestamp :: int
  bm_reason :: string
  bm_size :: nat

datatype BackupContent = Copy string | Meta BackupMetadata

record BackupFile =
  bf_content :: BackupContent
  bf_mtime :: int

record RecoveryStore =
  rs_files :: "(string \<times> string) list"
  rs_backups :: "(string \<times> BackupFile) list"

definition MAX_BACKUPS :: nat where
  "MAX_BACKUPS = 10"

definition cleanupOldBackups :: "RecoveryStore \<Rightarrow> RecoveryStore" where
  "cleanupOldBackups st =
     (let backupFiles = filter (\<lambda>f. endsWith (fst f) ''.backup'') (rs_backups st)
      in if length backupFiles \<le> MAX_BACKUPS then st
         else
           let fileStats = sort_cmp (\<lambda>a b. bf_mtime (snd a) - bf_mtime (snd b)) backupFiles;
               filesToRemove = map fst (take (length fileStats - MAX_BACKUPS) fileStats)
           in st \<lparr> rs_backups :=
                 filter (\<lambda>f. fst f \<notin> set filesToRemove
                            \<and> fst f \<notin> set (map (\<lambda>file. file @ ''.meta'') filesToRemove))
                   (rs_backups st) \<rparr>)"




section \<open>The transition tables as the specification words them\<close>

text \<open>
  The allowed (from, to) pairs of the specification's session table and task table,
  written from its prose, to compare the code's tables against.
\<close>

definition spec_session_table :: "(SessionState \<times> SessionState) set" where
  "spec_session_table =
     {(ACTIVE, SUSPENDED), (ACTIVE, SESSION_COMPLETED), (ACTIVE, SESSION_FAILED),
      (SUSPENDED, ACTIVE), (SUSPENDED, SESSION_COMPLETED), (SUSPENDED, SESSION_FAILED),
      (SESSION_FAILED, ACTIVE)}"

definition spec_task_table :: "(TaskStatus \<times> TaskStatus) set" where
  "spec_task_table =
     {(NOT_STARTED, IN_PROGRESS), (NOT_STARTED, CANCELLED),
      (IN_PROGRESS, COMPLETED), (IN_PROGRESS, BLOCKED), (IN_PROGRESS, FAILED),
      (IN_PROGRESS, CANCELLED),
      (BLOCKED, IN_PROGRESS), (BLOCKED, CANCELLED),
      (FAILED, IN_PROGRESS), (FAILED, CANCELLED),
      (CANCELLED, NOT_STARTED)}"

section \<open>Concrete inputs\<close>

text \<open>An update that carries a status and nothing else.\<close>

definition statusOnly :: "TaskStatus \<Rightarrow> UpdateTaskParams" where
  "statusOnly st = \<lparr> p_name = None, p_description = None, p_status = Some st, p_priority = None,
      p_dependencies = None, p_completionPercentage = None, p_sessionId = None \<rparr>"

definition exampleSession :: Session where
  "exampleSession = \<lparr> sess_id = ''session-1-a'', sess_type = TASK, sess_orchestrationId = ''orch-1'',
      sess_timestamp = 1, sess_state = ACTIVE, sess_parentSessionId = None,
      sess_childSessionIds = [], sess_lastActivityAt = 1, sess_completedAt = None,
      sess_failureReason = None \<rparr>"

definition exampleTask :: Task where
  "exampleTask = \<lparr> task_id = ''task-1-a'', task_name = ''A'', task_description = ''first'',
      task_status = COMPLETED, task_priority = MEDIUM, task_orchestrationId = ''orch-1'',
      task_dependencies = [], task_completionPercentage = 100, task_effortHours = None,
      task_sessionId = None, task_createdAt = 1, task_startedAt = Some 2,
      task_completedAt = Some 3, task_updatedAt = 3 \<rparr>"

text \<open>A registry is well formed when every cached key holds an object with that id.\<close>

definition registry_wf :: "Registry \<Rightarrow> bool" where
  "registry_wf r = (\<forall>k \<in> reg_cached r. \<exists>s. reg_objects r k = Some s \<and> sess_id s = k)"

text \<open>The default configuration, four clock readings, and registries built by createSession.\<close>

definition defaultConfig :: StorageConfig where
  "defaultConfig = \<lparr> enableBackups = True, maxBackups = 10 \<rparr>"

definition clock1 :: Clock where
  "clock1 = \<lparr> clk_now = 1, clk_stamp = ''1970-01-01T00-00-00-001Z'' \<rparr>"

definition clock2 :: Clock where
  "clock2 = \<lparr> clk_now = 2, clk_stamp = ''1970-01-01T00-00-00-002Z'' \<rparr>"

definition clock3 :: Clock where
  "clock3 = \<lparr> clk_now = 3, clk_stamp = ''1970-01-01T00-00-00-003Z'' \<rparr>"

definition clock9 :: Clock where
  "clock9 = \<lparr> clk_now = 9, clk_stamp = ''1970-01-01T00-00-00-009Z'' \<rparr>"

definition emptyRegistry :: Registry where
  "emptyRegistry = \<lparr> reg_objects = Map.empty, reg_cached = {},
      reg_storage = \<lparr> sessionFiles = [], backupFiles = [] \<rparr> \<rparr>"

definition paramsFor :: "string \<Rightarrow> string option \<Rightarrow> CreateSessionParams" where
  "paramsFor oid parent = \<lparr> cp_type = TASK, cp_orchestrationId = oid, cp_parentSessionId = parent \<rparr>"

text \<open>A registry holding one session, \<open>session-p\<close>, of orchestration \<open>orch-1\<close>.\<close>

definition parentRegistry :: Registry where
  "parentRegistry =
     snd (createSession defaultConfig clock1 (paramsFor ''orch-1'' None) ''p'' emptyRegistry)"

text \<open>The same after two children of \<open>session-p\<close> were created.\<close>

definition familyRegistry :: Registry where
  "familyRegistry =
     snd (createSession defaultConfig clock3 (paramsFor ''orch-1'' (Some ''session-p'')) ''c2''
       (snd (createSession defaultConfig clock2 (paramsFor ''orch-1'' (Some ''session-p'')) ''c1''
         parentRegistry)))"

text \<open>
  A registry started on the storage of \<open>parentRegistry\<close>: the file of \<open>session-p\<close>
  exists, the Map holds no object yet.
\<close>

definition restartedRegistry :: Registry where
  "restartedRegistry = emptyRegistry \<lparr> reg_storage := reg_storage parentRegistry \<rparr>"

text \<open>
  The scenario of three tasks, created in the order A, B, C at the times given: B
  depends on A and C on B, finish to start; and the store after A is marked completed.
\<close>

definition scenarioParams :: "string \<Rightarrow> string list \<Rightarrow> CreateTaskParams" where
  "scenarioParams name deps =
     \<lparr> ct_name = name, ct_description = ''scenario task'', ct_priority = None,
       ct_orchestrationId = ''orch-1'',
       ct_dependencies = Some (map (\<lambda>d. \<lparr> dep_taskId = d, dep_type = FINISH_TO_START \<rparr>) deps),
       ct_effortHours = None \<rparr>"

definition scenarioStore :: "int \<Rightarrow> int \<Rightarrow> int \<Rightarrow> Task list" where
  "scenarioStore cA cB cC =
     snd (createTask
       (snd (createTask
         (snd (createTask [] (scenarioParams ''A'' []) ''a'' cA))
         (scenarioParams ''B'' [''task-a'']) ''b'' cB))
       (scenarioParams ''C'' [''task-b'']) ''c'' cC)"

definition scenarioStoreDone :: "int \<Rightarrow> int \<Rightarrow> int \<Rightarrow> int \<Rightarrow> Task list" where
  "scenarioStoreDone cA cB cC now =
     snd (updateTask (scenarioStore cA cB cC) ''task-a'' (statusOnly COMPLETED) now)"

text \<open>The task records of the scenario, written out.\<close>

definition scenarioTask :: "string \<Rightarrow> string \<Rightarrow> string list \<Rightarrow> TaskStatus \<Rightarrow> int \<Rightarrow> Task" where
  "scenarioTask ident name deps status created =
     \<lparr> task_id = ident, task_name = name, task_description = ''scenario task'',
       task_status = status, task_priority = MEDIUM, task_orchestrationId = ''orch-1'',
       task_dependencies = map (\<lambda>d. \<lparr> dep_taskId = d, dep_type = FINISH_TO_START \<rparr>) deps,
       task_completionPercentage = 0, task_effortHours = None, task_sessionId = None,
       task_createdAt = created, task_startedAt = None, task_completedAt = None,
       task_updatedAt = created \<rparr>"

text \<open>The sort key that the comparator of \<open>getNextTask\<close> orders by.\<close>

definition nextKey :: "Task \<Rightarrow> int" where
  "nextKey t = (if task_dependencies t = [] then 0 else 10) - priorityOrder (task_priority t)"





section \<open>TaskManifest: validateTaskDependencies\<close>

text \<open>
  \<open>path.indexOf\<close> and \<open>path.slice\<close>; the closure \<open>hasCycle\<close> with the sets
  \<open>visited\<close>, \<open>recursionStack\<close> and the list \<open>result.cycles\<close> it updates as an
  explicit state. The recursion descends once per task not yet visited, so the fuel
  \<open>length tasks + 1\<close> is never used up (lemma \<open>hasCycle_fuel\<close>).
\<close>

fun indexOf :: "'a list \<Rightarrow> 'a \<Rightarrow> int" where
  "indexOf [] x = -1"
| "indexOf (y # ys) x = (if y = x then 0 else let i = indexOf ys x in if i < 0 then -1 else i + 1)"

definition slice :: "'a list \<Rightarrow> int \<Rightarrow> 'a list" where
  "slice xs start =
     (if start < 0 then drop (nat (max 0 (int (length xs) + start))) xs else drop (nat start) xs)"

record DfsState =
  visited :: "string set"
  recursionStack :: "string set"
  cycles :: "string list list"

fun hasCycle :: "nat \<Rightarrow> Task list \<Rightarrow> string \<Rightarrow> string list \<Rightarrow> DfsState \<Rightarrow> (bool \<times> DfsState) option"
and dependenciesLoop ::
  "nat \<Rightarrow> Task list \<Rightarrow> string \<Rightarrow> string list \<Rightarrow> TaskDependency list \<Rightarrow> DfsState
     \<Rightarrow> (bool \<times> DfsState) option"
where
  "hasCycle 0 tasks taskId path st = None"
| "hasCycle (Suc n) tasks taskId path st =
     (if taskId \<in> recursionStack st
      then Some (True, st \<lparr> cycles := cycles st @ [slice path (indexOf path taskId) @ [taskId]] \<rparr>)
      else if taskId \<in> visited st then Some (False, st)
      else
        let st1 = st \<lparr> visited := insert taskId (visited st),
                       recursionStack := insert taskId (recursionStack st) \<rparr>
        in case find (\<lambda>t. task_id t = taskId) tasks of
             None \<Rightarrow> Some (False, st1 \<lparr> recursionStack := recursionStack st1 - {taskId} \<rparr>)
           | Some task \<Rightarrow>
               (case dependenciesLoop n tasks taskId path (task_dependencies task) st1 of
                  None \<Rightarrow> None
                | Some (True, st2) \<Rightarrow> Some (True, st2)
                | Some (False, st2) \<Rightarrow>
                    Some (False, st2 \<lparr> recursionStack := recursionStack st2 - {taskId} \<rparr>)))"
| "dependenciesLoop n tasks taskId path [] st = Some (False, st)"
| "dependenciesLoop n tasks taskId path (dependency # rest) st =
     (if dep_taskId dependency \<in> task_id ` set tasks
      then
        (case hasCycle n tasks (dep_taskId dependency) (path @ [taskId]) st of
           None \<Rightarrow> None
         | Some (True, st') \<Rightarrow> Some (True, st')
         | Some (False, st') \<Rightarrow> dependenciesLoop n tasks taskId path rest st')
      else dependenciesLoop n tasks taskId path rest st)"

fun tasksLoop :: "nat \<Rightarrow> Task list \<Rightarrow> Task list \<Rightarrow> bool \<times> DfsState \<Rightarrow> (bool \<times> DfsState) option" where
  "tasksLoop fuel tasks [] acc = Some acc"
| "tasksLoop fuel tasks (task # rest) (isValid, st) =
     (if task_id task \<notin> visited st
      then
        (case hasCycle fuel tasks (task_id task) [] st of
           None \<Rightarrow> None
         | Some (found, st') \<Rightarrow> tasksLoop fuel tasks rest (if found then False else isValid, st'))
      else tasksLoop fuel tasks rest (isValid, st))"

record DependencyValidation =
  dv_isValid :: bool
  dv_cycles :: "string list list"
  dv_orphanedTasks :: "string list"
  dv_invalidDependencies :: "string list"

definition invalidDependenciesOf :: "Task list \<Rightarrow> string list" where
  "invalidDependenciesOf tasks =
     concat (map (\<lambda>task.
        map (\<lambda>dependency. task_id task @ '' -> '' @ dep_taskId dependency)
          (filter (\<lambda>dependency. dep_taskId dependency \<notin> task_id ` set tasks)
             (task_dependencies task)))
       tasks)"

definition validateTaskDependencies :: "Task list \<Rightarrow> string \<Rightarrow> DependencyValidation option" where
  "validateTaskDependencies store orchestrationId =
     (let tasks = queryTasks store \<lparr> q_orchestrationId = Some orchestrationId, q_status = None \<rparr>;
          invalidDependencies = invalidDependenciesOf tasks
      in case tasksLoop (Suc (length tasks)) tasks tasks
                (invalidDependencies = [], \<lparr> visited = {}, recursionStack = {}, cycles = [] \<rparr>) of
           None \<Rightarrow> None
         | Some (isValid, st) \<Rightarrow>
             Some \<lparr> dv_isValid = isValid, dv_cycles = cycles st, dv_orphanedTasks = [],
                    dv_invalidDependencies = invalidDependencies \<rparr>)"

section \<open>TaskManifest: getTaskExecutionOrder\<close>

text \<open>
  A JavaScript \<open>Map\<close> as an association list in insertion order: \<open>set\<close> on a key
  already present replaces its value in place, on a new key appends. \<open>dependencyMap\<close>
  holds the dependents of each task, \<open>inDegree\<close> the number of dependencies that name a
  task of the orchestration; \<open>has\<close> followed by \<open>get\<close> is one case distinction on
  \<open>Map_get\<close>, and \<open>get(k) || 0\<close> is \<open>getOrZero\<close>.
\<close>

type_synonym ('k, 'v) JsMap = "('k \<times> 'v) list"

fun Map_set :: "'k \<Rightarrow> 'v \<Rightarrow> ('k, 'v) JsMap \<Rightarrow> ('k, 'v) JsMap" where
  "Map_set k v [] = [(k, v)]"
| "Map_set k v ((k', v') # m) = (if k' = k then (k, v) # m else (k', v') # Map_set k v m)"

definition Map_get :: "('k, 'v) JsMap \<Rightarrow> 'k \<Rightarrow> 'v option" where
  "Map_get m k = map_of m k"

definition getOrZero :: "(string, int) JsMap \<Rightarrow> string \<Rightarrow> int" where
  "getOrZero m k = (case Map_get m k of Some n \<Rightarrow> n | None \<Rightarrow> 0)"

definition initialize ::
  "Task list \<Rightarrow> (string, string list) JsMap \<times> (string, int) JsMap" where
  "initialize tasks =
     fold (\<lambda>task (dependencyMap, inDegree).
             (Map_set (task_id task) [] dependencyMap, Map_set (task_id task) 0 inDegree))
       tasks ([], [])"

fun addDependency ::
  "Task \<Rightarrow> TaskDependency \<Rightarrow> (string, string list) JsMap \<times> (string, int) JsMap
     \<Rightarrow> (string, string list) JsMap \<times> (string, int) JsMap" where
  "addDependency task dependency (dependencyMap, inDegree) =
     (case Map_get dependencyMap (dep_taskId dependency) of
        Some dependents \<Rightarrow>
          (Map_set (dep_taskId dependency) (dependents @ [task_id task]) dependencyMap,
           Map_set (task_id task) (getOrZero inDegree (task_id task) + 1) inDegree)
      | None \<Rightarrow> (dependencyMap, inDegree))"

definition buildGraph ::
  "Task list \<Rightarrow> (string, string list) JsMap \<times> (string, int) JsMap
     \<Rightarrow> (string, string list) JsMap \<times> (string, int) JsMap" where
  "buildGraph tasks maps = fold (\<lambda>task. fold (addDependency task) (task_dependencies task)) tasks maps"

definition initialQueue :: "(string, int) JsMap \<Rightarrow> string list" where
  "initialQueue inDegree = map fst (filter (\<lambda>(taskId, degree). degree = 0) inDegree)"

fun processDependent ::
  "string \<Rightarrow> (string, int) JsMap \<times> string list \<Rightarrow> (string, int) JsMap \<times> string list" where
  "processDependent dependentId (inDegree, queue) =
     (let newDegree = getOrZero inDegree dependentId - 1
      in (Map_set dependentId newDegree inDegree,
          if newDegree = 0 then queue @ [dependentId] else queue))"

text \<open>
  The \<open>while\<close> loop terminates on every input: the queue length plus the number of
  positive entries of \<open>inDegree\<close> drops with every task taken from the queue.
\<close>

definition weight :: "(string, int) JsMap \<times> string list \<Rightarrow> nat" where
  "weight s = length (snd s) + length (filter (\<lambda>(k, d). 1 \<le> d) (fst s))"

function whileLoop ::
  "Task list \<Rightarrow> (string, string list) JsMap \<Rightarrow> (string, int) JsMap \<Rightarrow> string list \<Rightarrow> Task list
     \<Rightarrow> Task list" where
  "whileLoop tasks dependencyMap inDegree [] result = result"
| "whileLoop tasks dependencyMap inDegree (currentTaskId # queue) result =
     (let result' = (case find (\<lambda>t. task_id t = currentTaskId) tasks of
                       Some currentTask \<Rightarrow> result @ [currentTask]
                     | None \<Rightarrow> result);
          dependents = (case Map_get dependencyMap currentTaskId of Some ds \<Rightarrow> ds | None \<Rightarrow> []);
          processed = fold processDependent dependents (inDegree, queue)
      in whileLoop tasks dependencyMap (fst processed) (snd processed) result')"
  by pat_completeness auto

termination
proof (relation "measure (\<lambda>(tasks, dependencyMap, inDegree, queue, result). weight (inDegree, queue))")
  show "wf (measure (\<lambda>(tasks, dependencyMap, inDegree, queue, result). weight (inDegree, queue)))"
    by simp
next
  fix tasks :: "Task list" and dependencyMap :: "(string, string list) JsMap"
    and inDegree :: "(string, int) JsMap" and currentTaskId queue and result x :: "Task list"
  fix xa :: "string list" and xb :: "(string, int) JsMap \<times> string list"
  assume xb: "xb = fold processDependent xa (inDegree, queue)"
  have positive: "length (filter (\<lambda>(k, d). 1 \<le> (d::int)) (Map_set k v m))
       + (case map_of m k of None \<Rightarrow> 0 | Some n \<Rightarrow> if 1 \<le> n then 1 else 0)
     = length (filter (\<lambda>(k, d). 1 \<le> d) m) + (if 1 \<le> v then 1 else 0)"
    for k :: string and v and m :: "(string, int) JsMap"
    by (induction m) (auto split: option.splits)
  have step: "weight (processDependent d s) \<le> weight s" for d s
  proof (cases s)
    case (Pair deg q)
    show ?thesis
      using positive[of d "getOrZero deg d - 1" deg] Pair
      by (cases "map_of deg d")
        (auto simp: weight_def getOrZero_def Map_get_def Let_def split: if_splits)
  qed
  have loop: "weight (fold processDependent ds s) \<le> weight s" for ds s
  proof (induction ds arbitrary: s)
    case Nil
    then show ?case by simp
  next
    case (Cons d ds)
    have "weight (fold processDependent ds (processDependent d s)) \<le> weight (processDependent d s)"
      by (rule Cons.IH)
    then show ?case using step[of d s] by simp
  qed
  have "weight xb \<le> weight (inDegree, queue)" using xb loop by simp
  then show "((tasks, dependencyMap, fst xb, snd xb, x), tasks, dependencyMap, inDegree, currentTaskId # queue, result)
       \<in> measure (\<lambda>(tasks, dependencyMap, inDegree, queue, result). weight (inDegree, queue))"
    by (simp add: weight_def)
qed

definition getTaskExecutionOrder :: "Task list \<Rightarrow> string \<Rightarrow> Task list" where
  "getTaskExecutionOrder store orchestrationId =
     (let tasks = queryTasks store \<lparr> q_orchestrationId = Some orchestrationId, q_status = None \<rparr>;
          (dependencyMap, inDegree) = buildGraph tasks (initialize tasks)
      in whileLoop tasks dependencyMap inDegree (initialQueue inDegree) [])"

section \<open>The dependency graph of an orchestration\<close>

text \<open>
  The edges between tasks of the list, and the invariant of the depth-first search:
  the tasks visited and no longer on the stack are closed under edges and lie on no cycle.
\<close>

definition dependsOn :: "Task list \<Rightarrow> (string \<times> string) set" where
  "dependsOn tasks =
     {(task_id t, dep_taskId d) | t d.
        t \<in> set tasks \<and> d \<in> set (task_dependencies t) \<and> dep_taskId d \<in> task_id ` set tasks}"

text \<open>
  The tasks of an orchestration: the tasks of the store that carry its id.
\<close>

definition orchestrationTasks :: "Task list \<Rightarrow> string \<Rightarrow> Task list" where
  "orchestrationTasks store orchestrationId =
     filter (\<lambda>t. task_orchestrationId t = orchestrationId) store"

definition closed_under :: "(string \<times> string) set \<Rightarrow> string set \<Rightarrow> bool" where
  "closed_under E B \<longleftrightarrow> (\<forall>u \<in> B. \<forall>v. (u, v) \<in> E \<longrightarrow> v \<in> B)"

definition cycle_free :: "(string \<times> string) set \<Rightarrow> string set \<Rightarrow> bool" where
  "cycle_free E B \<longleftrightarrow> (\<forall>u \<in> B. (u, u) \<notin> E\<^sup>+)"

definition black :: "DfsState \<Rightarrow> string set" where
  "black st = visited st - recursionStack st"

definition dfs_inv :: "Task list \<Rightarrow> DfsState \<Rightarrow> bool" where
  "dfs_inv tasks st \<longleftrightarrow>
     recursionStack st \<subseteq> visited st
     \<and> closed_under (dependsOn tasks) (black st)
     \<and> cycle_free (dependsOn tasks) (black st)"

definition dfs_post :: "Task list \<Rightarrow> DfsState \<Rightarrow> bool \<Rightarrow> DfsState \<Rightarrow> bool" where
  "dfs_post tasks st b st' \<longleftrightarrow>
     (if b then \<not> acyclic (dependsOn tasks) \<and> cycles st' \<noteq> []
      else dfs_inv tasks st' \<and> cycles st' = cycles st \<and> recursionStack st' = recursionStack st
           \<and> visited st \<subseteq> visited st')"

text \<open>
  The dependents of a task as \<open>dependencyMap\<close> lists them, and the invariant of the
  \<open>while\<close> loop of \<open>getTaskExecutionOrder\<close>: the degree of a task is the number of its
  dependencies not yet in the result, and the tasks in the result or in the queue are
  those of degree zero.
\<close>

definition dependentsOf :: "Task list \<Rightarrow> string \<Rightarrow> string list" where
  "dependentsOf tasks k =
     concat (map (\<lambda>t. map (\<lambda>d. task_id t) (filter (\<lambda>d. dep_taskId d = k) (task_dependencies t)))
               tasks)"

definition queue_ok :: "(string, int) JsMap \<Rightarrow> string list \<Rightarrow> bool" where
  "queue_ok deg q \<longleftrightarrow> distinct q \<and> (\<forall>k \<in> set q. getOrZero deg k \<le> 0)"

definition dependencies_first :: "string set \<Rightarrow> Task list \<Rightarrow> bool" where
  "dependencies_first ids result \<longleftrightarrow>
     (\<forall>xs t ys. result = xs @ t # ys \<longrightarrow>
        (\<forall>d \<in> set (task_dependencies t). dep_taskId d \<in> ids \<longrightarrow> dep_taskId d \<in> task_id ` set xs))"

definition pending :: "Task list \<Rightarrow> Task list \<Rightarrow> Task \<Rightarrow> nat" where
  "pending tasks result t =
     length (filter (\<lambda>d. dep_taskId d \<in> task_id ` set tasks - task_id ` set result)
               (task_dependencies t))"

definition kahn_inv :: "Task list \<Rightarrow> (string, int) JsMap \<Rightarrow> string list \<Rightarrow> Task list \<Rightarrow> bool" where
  "kahn_inv tasks deg q result \<longleftrightarrow>
     set result \<subseteq> set tasks \<and> distinct (map task_id result @ q) \<and> set q \<subseteq> task_id ` set tasks
     \<and> (\<forall>t \<in> set tasks. getOrZero deg (task_id t) = int (pending tasks result t))
     \<and> (\<forall>t \<in> set tasks. task_id t \<in> task_id ` set result \<union> set q \<longleftrightarrow> pending tasks result t = 0)
     \<and> dependencies_first (task_id ` set tasks) result"

section \<open>Concrete task graphs\<close>

definition graphTask :: "string \<Rightarrow> string list \<Rightarrow> int \<Rightarrow> Task" where
  "graphTask ident deps created =
     \<lparr> task_id = ident, task_name = ident, task_description = ''graph task'',
       task_status = NOT_STARTED, task_priority = MEDIUM, task_orchestrationId = ''orch-1'',
       task_dependencies = map (\<lambda>d. \<lparr> dep_taskId = d, dep_type = FINISH_TO_START \<rparr>) deps,
       task_completionPercentage = 0, task_effortHours = None, task_sessionId = None,
       task_createdAt = created, task_startedAt = None, task_completedAt = None,
       task_updatedAt = created \<rparr>"

definition cyclicStore :: "Task list" where
  "cyclicStore = [graphTask ''a'' [''b''] 1, graphTask ''b'' [''a'', ''x''] 2, graphTask ''c'' [] 3]"

definition acyclicStore :: "Task list" where
  "acyclicStore = [graphTask ''a'' [''b'', ''c''] 1, graphTask ''b'' [''c''] 2, graphTask ''c'' [] 3]"

text \<open>
  A task of another orchestration, and two stores in which a task of the orchestration
  with the empty id stands beside two tasks of \<open>orch-1\<close> that depend on each other.
\<close>

definition orchTask :: "string \<Rightarrow> string \<Rightarrow> string list \<Rightarrow> int \<Rightarrow> Task" where
  "orchTask orchestrationId ident deps created =
     (graphTask ident deps created) \<lparr> task_orchestrationId := orchestrationId \<rparr>"

definition mixedStore :: "Task list" where
  "mixedStore = [orchTask '''' ''a'' [] 1, graphTask ''x'' [''y''] 2, graphTask ''y'' [''x''] 3]"

definition strayStore :: "Task list" where
  "strayStore = [orchTask '''' ''a'' [''x''] 1, graphTask ''x'' [''y''] 2, graphTask ''y'' [''x''] 3]"

text \<open>
  A store of \<open>n\<close> tasks of \<open>orch-1\<close>, the first \<open>c\<close> of them completed.
\<close>

definition countedStore :: "nat \<Rightarrow> nat \<Rightarrow> Task list" where
  "countedStore c n =
     map (\<lambda>i. (graphTask (''t'' @ decimal i) [] (int i))
                 \<lparr> task_status := (if i < c then COMPLETED else NOT_STARTED) \<rparr>)
       [0..<n]"

section \<open>Verified properties\<close>

subsection \<open>Helper lemmas on the task store\<close>

lemma loadTask_saveTask: "loadTask (saveTask store t) (task_id t) = Some t"
  by (induction store) (auto simp: loadTask_def)

lemma loadTask_id: "loadTask store tid = Some t \<Longrightarrow> task_id t = tid"
  by (auto simp: loadTask_def find_Some_iff)

lemma updateTask_status:
  assumes "loadTask store tid = Some t" "p_status params = Some to"
  shows "\<exists>t'. updateTask store tid params now = (Some t', saveTask store t')
           \<and> task_status t' = to \<and> task_id t' = tid"
  using assms loadTask_id[OF assms(1)] by (simp add: updateTask_def Let_def)

subsection \<open>C1: the transition tables and the update operations\<close>

lemma validateStateTransition_table:
  "fst (validateStateTransition from to) \<longleftrightarrow> from = to \<or> (from, to) \<in> spec_session_table"
  by (cases "from"; cases "to") (simp_all add: validateStateTransition_def spec_session_table_def)

lemma validateTaskStatusTransition_table:
  "fst (validateTaskStatusTransition from to) \<longleftrightarrow> (from, to) \<in> spec_task_table"
  by (cases "from"; cases "to") (simp_all add: validateTaskStatusTransition_def spec_task_table_def)

text \<open>
  C1 (as the code has it): neither update operation consults a transition table.
  \<open>updateState\<close> puts the session into any requested state, and \<open>updateTask\<close> on a
  stored task with a status in its parameters returns and stores the task with that
  status, whatever the current one. The tables exist only as the predicates
  \<open>validateStateTransition\<close> (which accepts exactly the pairs of the session table and
  every same-state pair) and \<open>validateTaskStatusTransition\<close> (which accepts exactly the
  pairs of the task table); no update calls them.
\<close>

theorem transitions_not_enforced_by_updates:
  "sess_state (updateState to reason now s) = to
   \<and> (loadTask store tid = Some t \<and> p_status params = Some to' \<longrightarrow>
        (\<exists>t'. fst (updateTask store tid params now) = Some t' \<and> task_status t' = to'
              \<and> loadTask (snd (updateTask store tid params now)) tid = Some t'))
   \<and> (fst (validateStateTransition from to) \<longleftrightarrow> from = to \<or> (from, to) \<in> spec_session_table)
   \<and> (fst (validateTaskStatusTransition from' to') \<longleftrightarrow> (from', to') \<in> spec_task_table)"
proof (intro conjI impI)
  show "sess_state (updateState to reason now s) = to"
    by (simp add: updateState_def Let_def)
next
  assume a: "loadTask store tid = Some t \<and> p_status params = Some to'"
  then obtain t' where t': "updateTask store tid params now = (Some t', saveTask store t')"
      "task_status t' = to'" "task_id t' = tid"
    using updateTask_status by blast
  then show "\<exists>t'. fst (updateTask store tid params now) = Some t' \<and> task_status t' = to'
              \<and> loadTask (snd (updateTask store tid params now)) tid = Some t'"
    using loadTask_saveTask[of store t'] by auto
next
  show "fst (validateStateTransition from to) \<longleftrightarrow> from = to \<or> (from, to) \<in> spec_session_table"
    by (rule validateStateTransition_table)
next
  show "fst (validateTaskStatusTransition from' to') \<longleftrightarrow> (from', to') \<in> spec_task_table"
    by (rule validateTaskStatusTransition_table)
qed

theorem transitions_not_enforced_by_updates_witness:
  "loadTask [exampleTask] ''task-1-a'' = Some exampleTask
   \<and> p_status (statusOnly NOT_STARTED) = Some NOT_STARTED
   \<and> (\<exists>t'. fst (updateTask [exampleTask] ''task-1-a'' (statusOnly NOT_STARTED) 9) = Some t'
         \<and> task_status t' = NOT_STARTED
         \<and> loadTask (snd (updateTask [exampleTask] ''task-1-a'' (statusOnly NOT_STARTED) 9))
             ''task-1-a'' = Some t')"
proof -
  have h: "loadTask [exampleTask] ''task-1-a'' = Some exampleTask
           \<and> p_status (statusOnly NOT_STARTED) = Some NOT_STARTED"
    by (simp add: loadTask_def exampleTask_def statusOnly_def)
  show ?thesis
    using h transitions_not_enforced_by_updates[where store = "[exampleTask]"
        and tid = "''task-1-a''" and t = exampleTask and params = "statusOnly NOT_STARTED"
        and to' = NOT_STARTED and now = 9]
    by blast
qed

text \<open>
  The claim as written fails: completed to active is outside the session table, yet
  \<open>updateState\<close> performs it; completed to not_started is outside the task table, yet
  \<open>updateTask\<close> returns and stores the task as not_started.
\<close>

theorem transitions_enforced_counterexample:
  "(SESSION_COMPLETED, ACTIVE) \<notin> spec_session_table
   \<and> sess_state (updateState SESSION_COMPLETED None 5 exampleSession) = SESSION_COMPLETED
   \<and> sess_state (updateState ACTIVE None 9
        (updateState SESSION_COMPLETED None 5 exampleSession)) = ACTIVE
   \<and> (COMPLETED, NOT_STARTED) \<notin> spec_task_table
   \<and> task_status exampleTask = COMPLETED
   \<and> map_option task_status (fst (updateTask [exampleTask] ''task-1-a'' (statusOnly NOT_STARTED) 9))
        = Some NOT_STARTED
   \<and> map task_status (snd (updateTask [exampleTask] ''task-1-a'' (statusOnly NOT_STARTED) 9))
        = [NOT_STARTED]"
  by (simp add: spec_session_table_def spec_task_table_def updateState_def exampleSession_def
      updateTask_def loadTask_def exampleTask_def statusOnly_def Let_def)

subsection \<open>C2: updateState called twice with the same state\<close>

text \<open>
  C2 (as the code has it): two calls \<open>updateState s reason\<close> in a row, at times \<open>t1\<close>
  and \<open>t2\<close>, never fail; the second leaves the state and the failure reason as the
  first left them and sets \<open>lastActivityAt\<close> to \<open>t2\<close>; \<open>completedAt\<close> is unchanged
  for every state but completed, where the second call stamps it again with \<open>t2\<close>.
\<close>

theorem updateState_twice:
  "sess_state (updateState st reason t2 (updateState st reason t1 s)) = st
   \<and> sess_lastActivityAt (updateState st reason t2 (updateState st reason t1 s)) = t2
   \<and> sess_failureReason (updateState st reason t2 (updateState st reason t1 s))
        = sess_failureReason (updateState st reason t1 s)
   \<and> sess_completedAt (updateState st reason t2 (updateState st reason t1 s))
        = (if st = SESSION_COMPLETED then Some t2 else sess_completedAt (updateState st reason t1 s))"
  by (simp add: updateState_def Let_def)

text \<open>
  The claim as written fails for the completed state: the second call, one
  millisecond later, changes \<open>completedAt\<close>.
\<close>

theorem updateState_twice_counterexample:
  "sess_completedAt (updateState SESSION_COMPLETED None 2
       (updateState SESSION_COMPLETED None 1 exampleSession))
     \<noteq> sess_completedAt (updateState SESSION_COMPLETED None 1 exampleSession)"
  by (simp add: updateState_def Let_def)

subsection \<open>C10: the two divisions of getTaskStatistics\<close>

text \<open>Rounding to a double: bounds, and the value once the binary exponent is known.\<close>

lemma roundEven_of_int: "roundEven (of_int n) = n"
  by (simp add: roundEven_def)

lemma roundEven_nonneg: "0 \<le> x \<Longrightarrow> 0 \<le> roundEven x"
  by (auto simp: roundEven_def Let_def)

lemma roundEven_le: "x \<le> of_int n \<Longrightarrow> roundEven x \<le> n"
proof -
  assume le: "x \<le> of_int n"
  have f: "\<lfloor>x\<rfloor> \<le> n" using floor_mono[OF le] by simp
  show ?thesis
  proof (cases "\<lfloor>x\<rfloor> = n")
    case True
    then have "x - of_int \<lfloor>x\<rfloor> \<le> 0" using le by simp
    then show ?thesis using True by (simp add: roundEven_def Let_def)
  next
    case False
    then have "\<lfloor>x\<rfloor> + 1 \<le> n" using f by simp
    then show ?thesis by (auto simp: roundEven_def Let_def)
  qed
qed

lemma pow2_nat: "0 \<le> e \<Longrightarrow> (2::rat) powi e = 2 ^ nat e"
  by (simp add: power_int_def)

lemma exponent_bounds:
  assumes "0 < x"
  shows "2 powi (exponent x) \<le> x \<and> x < 2 powi (exponent x + 1)"
proof -
  obtain p q where pq: "quotient_of x = (p, q)" by (cases "quotient_of x")
  have q: "0 < q" using quotient_of_denom_pos[OF pq] .
  have x: "x = of_int p / of_int q" using quotient_of_div[OF pq] .
  have p: "0 < p" using assms q unfolding x by (simp add: zero_less_divide_iff)
  let ?bp = "bitlen p" and ?bq = "bitlen q"
  have bp: "2 ^ nat (?bp - 1) \<le> p" "p < 2 ^ nat ?bp" using bitlen_bounds[OF p] by simp_all
  have bq: "2 ^ nat (?bq - 1) \<le> q" "q < 2 ^ nat ?bq" using bitlen_bounds[OF q] by simp_all
  have bp1: "1 \<le> ?bp" using bp(2) p by (cases "?bp \<le> 0") auto
  have bq1: "1 \<le> ?bq" using bq(2) q by (cases "?bq \<le> 0") auto
  have rp: "(2::rat) powi (?bp - 1) \<le> of_int p" "of_int p < (2::rat) powi ?bp"
  proof -
    have "(of_int (2 ^ nat (?bp - 1)) :: rat) \<le> of_int p" using bp(1) by (simp only: of_int_le_iff)
    then show "(2::rat) powi (?bp - 1) \<le> of_int p" using bp1 by (simp add: pow2_nat)
    have "(of_int p :: rat) < of_int (2 ^ nat ?bp)" using bp(2) by (simp only: of_int_less_iff)
    then show "of_int p < (2::rat) powi ?bp" using bp1 by (simp add: pow2_nat)
  qed
  have rq: "(2::rat) powi (?bq - 1) \<le> of_int q" "of_int q < (2::rat) powi ?bq"
  proof -
    have "(of_int (2 ^ nat (?bq - 1)) :: rat) \<le> of_int q" using bq(1) by (simp only: of_int_le_iff)
    then show "(2::rat) powi (?bq - 1) \<le> of_int q" using bq1 by (simp add: pow2_nat)
    have "(of_int q :: rat) < of_int (2 ^ nat ?bq)" using bq(2) by (simp only: of_int_less_iff)
    then show "of_int q < (2::rat) powi ?bq" using bq1 by (simp add: pow2_nat)
  qed
  have qpos: "(0::rat) < of_int q" using q by simp
  have ppos: "(0::rat) < of_int p" using p by simp
  have pw: "\<And>e. (0::rat) < 2 powi e" by simp
  let ?e = "?bp - ?bq"
  have lo: "(2::rat) powi (?e - 1) \<le> x"
  proof -
    have "(2::rat) powi (?e - 1) = 2 powi (?bp - 1) / 2 powi ?bq"
      by (simp add: power_int_diff)
    also have "\<dots> \<le> of_int p / 2 powi ?bq" using rp(1) by (simp add: divide_right_mono)
    also have "\<dots> \<le> of_int p / of_int q"
      using rq(2) qpos ppos by (intro divide_left_mono) (simp_all add: less_imp_le)
    finally show ?thesis unfolding x .
  qed
  have hi: "x < (2::rat) powi (?e + 1)"
  proof -
    have "of_int p / of_int q < 2 powi ?bp / (of_int q :: rat)"
      using rp(2) qpos by (simp add: divide_strict_right_mono)
    also have "\<dots> \<le> 2 powi ?bp / (2::rat) powi (?bq - 1)"
      using rq(1) qpos by (intro divide_left_mono) simp_all
    also have "\<dots> = (2::rat) powi (?e + 1)"
      by (simp add: power_int_diff power_int_add)
    finally show ?thesis unfolding x .
  qed
  show ?thesis
  proof (cases "(2::rat) powi ?e \<le> x")
    case True
    then have "exponent x = ?e" by (simp add: exponent_def pq)
    then show ?thesis using True hi by simp
  next
    case False
    then have "exponent x = ?e - 1" by (simp add: exponent_def pq)
    then show ?thesis using False lo by simp
  qed
qed

lemma pow2_less_imp: "(2::rat) powi m < 2 powi n \<Longrightarrow> m < n"
proof (rule ccontr)
  assume a: "(2::rat) powi m < 2 powi n" and "\<not> m < n"
  then have "n \<le> m" by simp
  then have "(2::rat) powi n \<le> 2 powi m" by (intro power_int_increasing) simp_all
  then show False using a by simp
qed

lemma exponent_unique:
  assumes "2 powi e \<le> x" "x < 2 powi (e + 1)"
  shows "exponent x = e"
proof -
  have pos: "0 < x" using assms(1) by (meson less_le_trans zero_less_numeral zero_less_power_int)
  note b = exponent_bounds[OF pos]
  have "(2::rat) powi e < 2 powi (exponent x + 1)" using assms(1) b by linarith
  then have 1: "e < exponent x + 1" by (rule pow2_less_imp)
  have "(2::rat) powi (exponent x) < 2 powi (e + 1)" using assms(2) b by linarith
  then have 2: "exponent x < e + 1" by (rule pow2_less_imp)
  show ?thesis using 1 2 by simp
qed

lemma roundMagnitude_eq:
  assumes "2 powi e \<le> x" "x < 2 powi (e + 1)" "- 1022 \<le> e"
  shows "roundMagnitude x = of_int (roundEven (x / 2 powi (e - 52))) * 2 powi (e - 52)"
proof -
  have ex: "exponent x = e" using exponent_unique[OF assms(1,2)] .
  have mx: "max e (- 1022) = e" using assms(3) by simp
  show ?thesis unfolding roundMagnitude_def Let_def ex mx ..
qed

lemma toDouble_eq:
  assumes "0 < x" "roundMagnitude x = r" "r < 2 powi 1024"
  shows "toDouble x = Num r"
proof -
  have a: "\<bar>x\<bar> = x" "x \<noteq> 0" "\<not> x < 0" using assms(1) by simp_all
  have b: "\<not> 2 powi 1024 \<le> r" using assms(3) by simp
  show ?thesis unfolding toDouble_def Let_def a(1) assms(2) using a(2,3) b by (simp only: if_False)
qed

lemma toDouble_bounded:
  assumes "0 \<le> x" "x \<le> of_int b" "b < 2 ^ 53"
  shows "\<exists>y. toDouble x = Num y \<and> 0 \<le> y \<and> y \<le> of_int b"
proof (cases "x = 0")
  case True
  then show ?thesis using assms by (simp add: toDouble_def)
next
  case False
  then have pos: "0 < x" using assms(1) by simp
  let ?e = "max (exponent x) (- 1022)"
  let ?q = "(2::rat) powi (?e - 52)"
  let ?m = "roundEven (x / ?q)"
  have qpos: "0 < ?q" by simp
  have "(2::rat) powi exponent x \<le> of_int b" using exponent_bounds[OF pos] assms(2) by linarith
  also have "(of_int b :: rat) < of_int (2 ^ 53)" using assms(3) by (simp only: of_int_less_iff)
  also have "(of_int (2 ^ 53) :: rat) = 2 powi 53" by (simp add: power_int_def)
  finally have "exponent x < 53" by (rule pow2_less_imp)
  then have e52: "?e \<le> 52" by simp
  let ?k = "nat (52 - ?e)"
  have inv: "1 / ?q = (2::rat) ^ ?k"
  proof -
    have "1 / ?q = (2::rat) powi (52 - ?e)" by (simp add: power_int_diff divide_simps)
    also have "\<dots> = 2 ^ ?k" using e52 by (simp add: pow2_nat)
    finally show ?thesis .
  qed
  have "x / ?q \<le> of_int b / ?q" using assms(2) qpos by (simp add: divide_right_mono)
  also have "of_int b / ?q = of_int b * (1 / ?q)" by simp
  also have "\<dots> = of_int (b * 2 ^ ?k)" unfolding inv by simp
  finally have "?m \<le> b * 2 ^ ?k" by (rule roundEven_le)
  then have "(of_int ?m :: rat) \<le> of_int (b * 2 ^ ?k)" by (simp only: of_int_le_iff)
  then have "of_int ?m * ?q \<le> of_int (b * 2 ^ ?k) * ?q" using qpos by (simp add: mult_right_mono)
  also have "of_int (b * 2 ^ ?k) * ?q = of_int b * ((1 / ?q) * ?q)" unfolding inv by simp
  also have "\<dots> = of_int b" using qpos by simp
  finally have le: "of_int ?m * ?q \<le> of_int b" .
  have "0 \<le> x / ?q" using pos qpos by simp
  then have "0 \<le> ?m" by (rule roundEven_nonneg)
  then have ge: "0 \<le> of_int ?m * ?q" using qpos by simp
  have "(of_int b :: rat) < 2 powi 53" using assms(3)
    by (metis (no_types) of_int_less_iff of_int_numeral of_int_power pow2_nat nat_numeral
        zero_le_numeral)
  also have "(2::rat) powi 53 \<le> 2 powi 1024" by (simp add: power_int_increasing)
  finally have small: "\<not> 2 powi 1024 \<le> of_int ?m * ?q" using le by linarith
  have rm: "roundMagnitude x = of_int ?m * ?q" by (simp only: roundMagnitude_def Let_def)
  have a: "\<bar>x\<bar> = x" "x \<noteq> 0" "\<not> x < 0" using pos by simp_all
  have "toDouble x = Num (of_int ?m * ?q)"
    unfolding toDouble_def Let_def a(1) rm using a(2,3) small by (simp only: if_False)
  then show ?thesis using le ge by blast
qed

lemma roundEven_divide:
  assumes "0 < b"
  shows "roundEven (of_int a / of_int b) =
     (if 2 * (a mod b) < b then a div b
      else if b < 2 * (a mod b) then a div b + 1
      else if even (a div b) then a div b else a div b + 1)"
proof -
  have f: "\<lfloor>(of_int a / of_int b :: rat)\<rfloor> = a div b" by (simp add: floor_divide_of_int_eq)
  have bpos: "(0::rat) < of_int b" using assms by simp
  have "(of_int a :: rat) = of_int (a div b) * of_int b + of_int (a mod b)"
    by (metis of_int_add of_int_mult div_mult_mod_eq)
  then have d: "(of_int a / of_int b :: rat) - of_int (a div b) = of_int (a mod b) / of_int b"
    using bpos by (simp add: field_simps)
  have lt: "(of_int (a mod b) / of_int b :: rat) < 1 / 2 \<longleftrightarrow> 2 * (a mod b) < b"
  proof -
    have "(of_int (a mod b) / of_int b :: rat) < 1 / 2 \<longleftrightarrow> (of_int (2 * (a mod b)) :: rat) < of_int b"
      using bpos by (simp add: field_simps)
    then show ?thesis by (simp only: of_int_less_iff)
  qed
  have gt: "(1 / 2 :: rat) < of_int (a mod b) / of_int b \<longleftrightarrow> b < 2 * (a mod b)"
  proof -
    have "(1 / 2 :: rat) < of_int (a mod b) / of_int b \<longleftrightarrow> (of_int b :: rat) < of_int (2 * (a mod b))"
      using bpos by (simp add: field_simps)
    then show ?thesis by (simp only: of_int_less_iff)
  qed
  show ?thesis unfolding roundEven_def Let_def f d lt gt ..
qed

lemma roundEven_numeral:
  "roundEven (numeral a / numeral b) =
     (if 2 * (numeral a mod numeral b) < (numeral b :: int) then numeral a div numeral b
      else if (numeral b :: int) < 2 * (numeral a mod numeral b) then numeral a div numeral b + 1
      else if even (numeral a div numeral b :: int) then numeral a div numeral b
      else numeral a div numeral b + 1)"
  using roundEven_divide[of "numeral b" "numeral a"] by simp

lemma quotient_23_40: "toDouble (23 / 40) = Num (5179139571476070 / 2 ^ 53)"
proof (rule toDouble_eq)
  show "(0::rat) < 23 / 40" by simp
  have "roundMagnitude (23 / 40)
      = of_int (roundEven (23 / 40 / 2 powi (- 1 - 52))) * 2 powi (- 1 - 52)"
    by (rule roundMagnitude_eq) (simp_all add: power_int_minus)
  also have "\<dots> = 5179139571476070 / 2 ^ 53"
    by (simp add: power_int_minus roundEven_numeral)
  finally show "roundMagnitude (23 / 40) = 5179139571476070 / 2 ^ 53" .
  show "(5179139571476070 / 2 ^ 53 :: rat) < 2 powi 1024" by simp
qed

lemma product_23_40: "toDouble (5179139571476070 / 2 ^ 53 * 100) = Num (8092405580431359 / 2 ^ 47)"
proof (rule toDouble_eq)
  show "(0::rat) < 5179139571476070 / 2 ^ 53 * 100" by simp
  have "roundMagnitude (5179139571476070 / 2 ^ 53 * 100)
      = of_int (roundEven (5179139571476070 / 2 ^ 53 * 100 / 2 powi (5 - 52))) * 2 powi (5 - 52)"
    by (rule roundMagnitude_eq) (simp_all add: power_int_minus)
  also have "\<dots> = 8092405580431359 / 2 ^ 47"
    by (simp add: power_int_minus roundEven_numeral)
  finally show "roundMagnitude (5179139571476070 / 2 ^ 53 * 100) = 8092405580431359 / 2 ^ 47" .
  show "(8092405580431359 / 2 ^ 47 :: rat) < 2 powi 1024" by simp
qed

lemma percentage_23_40: "Math_round (js_times (js_div (Num 23) (Num 40)) (Num 100)) = Num 57"
proof -
  have 1: "js_div (Num 23) (Num 40) = Num (5179139571476070 / 2 ^ 53)"
    using quotient_23_40 by simp
  have 2: "js_times (Num (5179139571476070 / 2 ^ 53)) (Num 100) = Num (8092405580431359 / 2 ^ 47)"
    by (simp only: js_times.simps product_23_40)
  have "\<lfloor>(8092405580431359 / 2 ^ 47 + 1 / 2 :: rat)\<rfloor> = 57"
    by (simp add: floor_eq_iff)
  then have 3: "Math_round (Num (8092405580431359 / 2 ^ 47)) = Num 57"
    by (simp only: Math_round.simps of_int_numeral)
  show ?thesis by (simp only: 1 2 3)
qed

text \<open>In exact arithmetic the same percentage is 57.5, which rounds to 58.\<close>

lemma exact_23_40: "\<lfloor>(23 / 40 * 100 + 1 / 2 :: rat)\<rfloor> = 58"
  by (simp add: floor_eq_iff)

lemma toDouble_1: "toDouble 1 = Num 1"
proof (rule toDouble_eq)
  show "(0::rat) < 1" by simp
  have "roundMagnitude 1 = of_int (roundEven (1 / 2 powi (0 - 52))) * 2 powi (0 - 52)"
    by (rule roundMagnitude_eq) simp_all
  also have "\<dots> = 1"
    using roundEven_of_int[of "2 ^ 52"] by (simp add: power_int_minus)
  finally show "roundMagnitude 1 = 1" .
  show "(1::rat) < 2 powi 1024" by simp
qed

lemma toDouble_100: "toDouble 100 = Num 100"
proof (rule toDouble_eq)
  show "(0::rat) < 100" by simp
  have "roundMagnitude 100 = of_int (roundEven (100 / 2 powi (6 - 52))) * 2 powi (6 - 52)"
    by (rule roundMagnitude_eq) simp_all
  also have "\<dots> = 100"
    using roundEven_of_int[of "100 * 2 ^ 46"] by (simp add: power_int_minus)
  finally show "roundMagnitude 100 = 100" .
  show "(100::rat) < 2 powi 1024" by simp
qed

lemma percentage_bounds:
  fixes c n :: nat
  assumes "c \<le> n" "0 < n"
  shows "\<exists>p. Math_round (js_times (js_div (Num (of_nat c)) (Num (of_nat n))) (Num 100))
              = Num (of_int p) \<and> 0 \<le> p \<and> p \<le> 100"
proof -
  have n0: "(of_nat n :: rat) \<noteq> 0" using assms(2) by simp
  have q0: "(0::rat) \<le> of_nat c / of_nat n" by simp
  have "(of_nat c :: rat) \<le> of_nat n" using assms(1) by simp
  then have q1: "(of_nat c / of_nat n :: rat) \<le> of_int 1" using assms(2) by (simp add: divide_le_eq_1)
  from toDouble_bounded[OF q0 q1] obtain y where
    y: "toDouble (of_nat c / of_nat n) = Num y" "0 \<le> y" "y \<le> 1" by auto
  have p0: "0 \<le> y * 100" using y(2) by simp
  have "y * 100 \<le> 1 * 100" using y(3) by (intro mult_right_mono) simp_all
  then have p1: "y * 100 \<le> of_int 100" by simp
  from toDouble_bounded[OF p0 p1] obtain z where
    z: "toDouble (y * 100) = Num z" "0 \<le> z" "z \<le> 100" by auto
  have f0: "0 \<le> \<lfloor>z + 1 / 2\<rfloor>" using z(2) by simp
  have f1: "\<lfloor>z + 1 / 2\<rfloor> \<le> 100" using z(3) by (simp add: floor_le_iff)
  have "Math_round (js_times (js_div (Num (of_nat c)) (Num (of_nat n))) (Num 100))
      = Num (of_int \<lfloor>z + 1 / 2\<rfloor>)"
    using n0 y(1) z(1) by simp
  then show ?thesis using f0 f1 by blast
qed

lemma length_filter_insort_cmp:
  "length (filter P (insort_cmp cmp x xs)) = length (filter P (x # xs))"
  by (induction xs) auto

lemma length_filter_sort_cmp: "length (filter P (sort_cmp cmp xs)) = length (filter P xs)"
proof (induction xs)
  case Nil
  then show ?case by (simp add: sort_cmp_def)
next
  case (Cons x xs)
  have "sort_cmp cmp (x # xs) = insort_cmp cmp x (sort_cmp cmp xs)" by (simp add: sort_cmp_def)
  then show ?case using Cons by (simp add: length_filter_insort_cmp)
qed

lemma length_sort_cmp: "length (sort_cmp cmp xs) = length xs"
  using length_filter_sort_cmp[of "\<lambda>_. True" cmp xs] by simp

lemma queryTasks_sorted_orchestration:
  "queryTasks store \<lparr> q_orchestrationId = Some oid, q_status = None \<rparr>
     = sort_cmp (\<lambda>a b. task_createdAt b - task_createdAt a)
         (if oid = [] then store else orchestrationTasks store oid)"
  by (simp add: queryTasks_def taskMatchesQuery_def orchestrationTasks_def)

lemma fold_statsStep_byStatus:
  "fst (fold statsStep ts (bs, bp, tp, e)) s = bs s + length (filter (\<lambda>t. task_status t = s) ts)"
  by (induction ts arbitrary: bs bp tp e) (auto simp: statsStep_def)

lemma getTaskStatistics_percentage:
  assumes "tasks = (if oid = [] then store else orchestrationTasks store oid)"
  shows "st_completionPercentage (getTaskStatistics store oid)
     = Math_round (js_times
         (js_div (Num (of_nat (length (filter (\<lambda>t. task_status t = COMPLETED) tasks))))
                 (Num (of_nat (length tasks))))
         (Num 100))"
    and "tasks = [] \<Longrightarrow> st_averageProgress (getTaskStatistics store oid) = Num 0"
proof -
  let ?q = "queryTasks store \<lparr> q_orchestrationId = Some oid, q_status = None \<rparr>"
  have q: "?q = sort_cmp (\<lambda>a b. task_createdAt b - task_createdAt a) tasks"
    using assms queryTasks_sorted_orchestration[of store oid] by simp
  have l: "length ?q = length tasks" unfolding q by (rule length_sort_cmp)
  have c: "length (filter (\<lambda>t. task_status t = COMPLETED) ?q)
         = length (filter (\<lambda>t. task_status t = COMPLETED) tasks)"
    unfolding q by (rule length_filter_sort_cmp)
  obtain bs bp tp e where acc: "fold statsStep ?q (\<lambda>_. 0, \<lambda>_. 0, Num 0, Num 0) = (bs, bp, tp, e)"
    by (metis prod_cases4)
  have b: "bs COMPLETED = length (filter (\<lambda>t. task_status t = COMPLETED) tasks)"
    using fold_statsStep_byStatus[of ?q "\<lambda>_. 0" "\<lambda>_. 0" "Num 0" "Num 0" COMPLETED] acc c by simp
  show "st_completionPercentage (getTaskStatistics store oid)
     = Math_round (js_times
         (js_div (Num (of_nat (length (filter (\<lambda>t. task_status t = COMPLETED) tasks))))
                 (Num (of_nat (length tasks))))
         (Num 100))"
    using acc b l by (simp add: getTaskStatistics_def Let_def del: js_div.simps js_times.simps)
  show "tasks = [] \<Longrightarrow> st_averageProgress (getTaskStatistics store oid) = Num 0"
    using acc l by (simp add: getTaskStatistics_def Let_def)
qed

text \<open>
  C10. For a non-empty orchestration id the tasks counted are the tasks of the store
  that carry this id; for the empty id the query does not filter, and they are all
  tasks of the store. When there is no such task, \<open>averageProgress\<close> is the guarded 0
  and \<open>completionPercentage\<close> is the rounded 0/0, not a number. When there is at least
  one, \<open>completionPercentage\<close> is \<open>Math.round((completed / total) * 100)\<close> computed
  in doubles on the number of completed tasks and the number of tasks, and it is an
  integer between 0 and 100.
\<close>

theorem getTaskStatistics_division:
  assumes "tasks = (if oid = [] then store else orchestrationTasks store oid)"
  shows "(tasks = [] \<longrightarrow>
            st_averageProgress (getTaskStatistics store oid) = Num 0
            \<and> st_completionPercentage (getTaskStatistics store oid) = NaN)
     \<and> (tasks \<noteq> [] \<longrightarrow>
            st_completionPercentage (getTaskStatistics store oid)
              = Math_round (js_times
                  (js_div (Num (of_nat (length (filter (\<lambda>t. task_status t = COMPLETED) tasks))))
                          (Num (of_nat (length tasks))))
                  (Num 100))
            \<and> (\<exists>p. st_completionPercentage (getTaskStatistics store oid) = Num (of_int p)
                   \<and> 0 \<le> p \<and> p \<le> 100))"
proof (intro conjI impI)
  assume e: "tasks = []"
  show "st_averageProgress (getTaskStatistics store oid) = Num 0"
    using getTaskStatistics_percentage(2)[OF assms e] .
  show "st_completionPercentage (getTaskStatistics store oid) = NaN"
    unfolding getTaskStatistics_percentage(1)[OF assms] using e by simp
next
  assume ne: "tasks \<noteq> []"
  show "st_completionPercentage (getTaskStatistics store oid)
              = Math_round (js_times
                  (js_div (Num (of_nat (length (filter (\<lambda>t. task_status t = COMPLETED) tasks))))
                          (Num (of_nat (length tasks))))
                  (Num 100))"
    using getTaskStatistics_percentage(1)[OF assms] .
  have le: "length (filter (\<lambda>t. task_status t = COMPLETED) tasks) \<le> length tasks" by simp
  have pos: "0 < length tasks" using ne by simp
  show "\<exists>p. st_completionPercentage (getTaskStatistics store oid) = Num (of_int p)
                   \<and> 0 \<le> p \<and> p \<le> 100"
    unfolding getTaskStatistics_percentage(1)[OF assms] using percentage_bounds[OF le pos] .
qed

lemma countedStore_orchestration:
  "orchestrationTasks (countedStore c n) ''orch-1'' = countedStore c n"
  by (simp add: orchestrationTasks_def countedStore_def graphTask_def del: decimal.simps)

lemma countedStore_length: "length (countedStore c n) = n"
  by (simp add: countedStore_def)

lemma countedStore_completed:
  "c \<le> n \<Longrightarrow> length (filter (\<lambda>t. task_status t = COMPLETED) (countedStore c n)) = c"
proof -
  assume le: "c \<le> n"
  have "filter (\<lambda>t. task_status t = COMPLETED) (countedStore c n)
      = map (\<lambda>i. (graphTask (''t'' @ decimal i) [] (int i)) \<lparr> task_status := COMPLETED \<rparr>)
          (filter (\<lambda>i. i < c) [0..<n])"
    unfolding countedStore_def filter_map
    by (rule map_cong) (auto simp: comp_def simp del: decimal.simps)
  moreover have "filter (\<lambda>i. i < c) [0..<n] = [0..<c]"
    using le by (induction n) (auto simp: le_Suc_eq)
  ultimately show ?thesis by (simp del: decimal.simps)
qed

theorem getTaskStatistics_division_witness:
  "orchestrationTasks (countedStore 23 40) ''orch-1'' = countedStore 23 40
   \<and> countedStore 23 40 \<noteq> []
   \<and> length (filter (\<lambda>t. task_status t = COMPLETED) (countedStore 23 40)) = 23
   \<and> length (countedStore 23 40) = 40
   \<and> st_completionPercentage (getTaskStatistics (countedStore 23 40) ''orch-1'') = Num 57
   \<and> orchestrationTasks [] ''orch-1'' = []
   \<and> st_averageProgress (getTaskStatistics [] ''orch-1'') = Num 0
   \<and> st_completionPercentage (getTaskStatistics [] ''orch-1'') = NaN"
proof -
  have o: "orchestrationTasks (countedStore 23 40) ''orch-1'' = countedStore 23 40"
    by (rule countedStore_orchestration)
  have t: "countedStore 23 40
         = (if ''orch-1'' = [] then countedStore 23 40
            else orchestrationTasks (countedStore 23 40) ''orch-1'')"
    using o by simp
  have l: "length (countedStore 23 40) = 40" by (rule countedStore_length)
  have c: "length (filter (\<lambda>t. task_status t = COMPLETED) (countedStore 23 40)) = 23"
    by (rule countedStore_completed) simp
  have ne: "countedStore 23 40 \<noteq> []" using l by auto
  have "st_completionPercentage (getTaskStatistics (countedStore 23 40) ''orch-1'')
      = Math_round (js_times (js_div (Num (of_nat 23)) (Num (of_nat 40))) (Num 100))"
    using getTaskStatistics_division[OF t] ne unfolding l c by blast
  then have p: "st_completionPercentage (getTaskStatistics (countedStore 23 40) ''orch-1'') = Num 57"
    using percentage_23_40 by (simp only: of_nat_numeral)
  have e: "orchestrationTasks [] ''orch-1'' = []" by (simp add: orchestrationTasks_def)
  have t0: "[] = (if ''orch-1'' = [] then [] else orchestrationTasks [] ''orch-1'')"
    using e by simp
  have z: "st_averageProgress (getTaskStatistics [] ''orch-1'') = Num 0"
     "st_completionPercentage (getTaskStatistics [] ''orch-1'') = NaN"
    using getTaskStatistics_division[OF t0] by simp_all
  show ?thesis using o ne c l p e z by blast
qed

text \<open>
  The claim as written fails for the orchestration with the empty id: the store holds
  no task of it, and the statistics count the one task of \<open>orch-1\<close>, so that
  \<open>completionPercentage\<close> is 100 and not \<open>NaN\<close>.
\<close>

theorem getTaskStatistics_empty_id_counterexample:
  "orchestrationTasks [exampleTask] '''' = []
   \<and> st_total (getTaskStatistics [exampleTask] '''') = 1
   \<and> st_completionPercentage (getTaskStatistics [exampleTask] '''') = Num 100
   \<and> st_averageProgress (getTaskStatistics [exampleTask] '''') = Num 100"
  by (simp add: orchestrationTasks_def getTaskStatistics_def queryTasks_def taskMatchesQuery_def
      sort_cmp_def statsStep_def exampleTask_def toDouble_1 toDouble_100 Let_def floor_eq_iff)

subsection \<open>C7: saveSession validates before it writes\<close>

lemma map_of_writeFile: "map_of (writeFile fs n v) = (map_of fs)(n \<mapsto> v)"
  by (induction fs n v rule: writeFile.induct) auto

lemma map_of_unlink: "map_of (unlink fs n) = (map_of fs)(n := None)"
  by (induction fs) (auto simp: unlink_def)

lemma sessionFiles_cleanupBackups [simp]:
  "sessionFiles (cleanupBackups cfg kind ident st) = sessionFiles st"
  by (simp add: cleanupBackups_def Let_def)

lemma sessionFiles_createBackup [simp]:
  "sessionFiles (createBackup cfg clock ident st) = sessionFiles st"
  by (simp add: createBackup_def split: option.splits)

lemma createBackup_absent:
  "map_of (sessionFiles st) ident = None \<Longrightarrow> createBackup cfg clock ident st = st"
  by (simp add: createBackup_def)


lemma saveSession_valid:
  assumes "fst (validateSession session)"
  shows "\<exists>st'. saveSession cfg clock session st = (Inr (), st')
           \<and> map_of (sessionFiles st') = (map_of (sessionFiles st))(sess_id session \<mapsto> session)"
  using assms by (simp add: saveSession_def Let_def map_of_writeFile)

lemma validateSession_iff:
  "fst (validateSession s) \<longleftrightarrow> sess_id s \<noteq> [] \<and> sess_orchestrationId s \<noteq> []"
  by (auto simp: validateSession_def Let_def)




subsection \<open>C9: deleteSession\<close>

lemma finishDelete_ok:
  "finishDelete cfg clock sid r = (Inr b, r') \<Longrightarrow>
     b \<and> sid \<notin> reg_cached r' \<and> map_of (sessionFiles (reg_storage r')) sid = None
     \<and> reg_objects r' = reg_objects r \<and> reg_cached r' = reg_cached r - {sid}
     \<and> map_of (sessionFiles (reg_storage r')) = (map_of (sessionFiles (reg_storage r)))(sid := None)"
  by (auto simp: finishDelete_def storage_deleteSession_def sessions_delete_def Let_def map_of_unlink
      split: option.splits if_splits)

lemma finishDelete_present:
  "map_of (sessionFiles (reg_storage r)) sid \<noteq> None \<Longrightarrow> \<exists>r'. finishDelete cfg clock sid r = (Inr True, r')"
  by (auto simp: finishDelete_def storage_deleteSession_def sessions_delete_def Let_def
      split: option.splits)

lemma finishDelete_absent:
  assumes "sid \<notin> reg_cached r" "map_of (sessionFiles (reg_storage r)) sid = None"
  shows "finishDelete cfg clock sid r = (Inl (StorageError (''Failed to delete session '' @ sid)), r)"
proof -
  have "sessions_delete r sid = r" using assms(1) by (simp add: sessions_delete_def)
  then show ?thesis using assms(2)
    by (simp add: finishDelete_def storage_deleteSession_def Let_def createBackup_absent)
qed

lemma deleteSession_success:
  assumes "deleteSession fuel cfg clock sid r = Some (Inr b, r')"
  shows "b \<and> sid \<notin> reg_cached r' \<and> map_of (sessionFiles (reg_storage r')) sid = None"
proof (cases fuel)
  case 0
  then show ?thesis using assms by simp
next
  case (Suc n)
  then obtain r2 where "finishDelete cfg clock sid r2 = (Inr b, r')"
    using assms by (auto split: option.splits prod.splits sum.splits)
  then show ?thesis using finishDelete_ok by blast
qed

lemma deleteSession_absent:
  assumes "sid \<notin> reg_cached r" "map_of (sessionFiles (reg_storage r)) sid = None"
  shows "deleteSession (Suc n) cfg clock sid r
           = Some (Inl (StorageError (''Failed to delete session '' @ sid)), r)"
  using assms finishDelete_absent[OF assms] by (simp add: sessions_get_def)

lemma removeChildSession_children:
  "sess_childSessionIds (removeChildSession c now p) = remove1 c (sess_childSessionIds p)"
  by (simp add: removeChildSession_def remove1_idem)

lemma removeChildSession_keeps [simp]:
  "sess_id (removeChildSession c now p) = sess_id p"
  "sess_orchestrationId (removeChildSession c now p) = sess_orchestrationId p"
  by (simp_all add: removeChildSession_def)

lemma validateSession_removeChild [simp]:
  "fst (validateSession (removeChildSession c now p)) = fst (validateSession p)"
  by (simp add: validateSession_iff)

lemma detachFromParent_cached:
  assumes "sess_parentSessionId s = Some pid" "pid \<noteq> []" "sessions_get r pid = Some p"
    "sess_id p = pid" "fst (validateSession p)"
  shows "\<exists>r1. detachFromParent cfg clock sid s r = (Inr (), r1)
           \<and> reg_objects r1 = (reg_objects r)(pid \<mapsto> removeChildSession sid (clk_now clock) p)
           \<and> reg_cached r1 = reg_cached r
           \<and> map_of (sessionFiles (reg_storage r1))
               = (map_of (sessionFiles (reg_storage r)))(pid \<mapsto> removeChildSession sid (clk_now clock) p)"
proof -
  let ?p' = "removeChildSession sid (clk_now clock) p"
  let ?r1 = "r \<lparr> reg_objects := (reg_objects r)(pid \<mapsto> ?p') \<rparr>"
  have v: "fst (validateSession ?p')" using assms(5) by simp
  from saveSession_valid[OF v, of cfg clock "reg_storage ?r1"] obtain st' where
    st': "saveSession cfg clock ?p' (reg_storage ?r1) = (Inr (), st')"
    "map_of (sessionFiles st') = (map_of (sessionFiles (reg_storage ?r1)))(sess_id ?p' \<mapsto> ?p')"
    by blast
  show ?thesis using assms st' by (simp add: detachFromParent_def Let_def)
qed

lemma deleteSession_leaf:
  assumes s: "sessions_get r sid = Some s" and leaf: "sess_childSessionIds s = []"
    and stored: "map_of (sessionFiles (reg_storage r)) sid \<noteq> None"
    and par: "sess_parentSessionId s = Some pid" "pid \<noteq> []" "pid \<noteq> sid"
    and p: "sessions_get r pid = Some p" "sess_id p = pid" "fst (validateSession p)"
  shows "\<exists>r'. deleteSession (Suc (Suc n)) cfg clock sid r = Some (Inr True, r')
           \<and> sid \<notin> reg_cached r' \<and> map_of (sessionFiles (reg_storage r')) sid = None
           \<and> sessions_get r' pid = Some (removeChildSession sid (clk_now clock) p)
           \<and> map_of (sessionFiles (reg_storage r')) pid = Some (removeChildSession sid (clk_now clock) p)"
proof -
  let ?p' = "removeChildSession sid (clk_now clock) p"
  from detachFromParent_cached[OF par(1,2) p, of cfg clock sid] obtain r1 where
    r1: "detachFromParent cfg clock sid s r = (Inr (), r1)"
      "reg_objects r1 = (reg_objects r)(pid \<mapsto> ?p')"
      "reg_cached r1 = reg_cached r"
      "map_of (sessionFiles (reg_storage r1)) = (map_of (sessionFiles (reg_storage r)))(pid \<mapsto> ?p')"
    by blast
  have obj: "reg_objects r1 sid = Some s"
    using s r1(2) par(3) by (auto simp: sessions_get_def split: if_splits)
  have loop: "deleteChildren (Suc n) cfg clock sid 0 r1 = Some (Inr (), r1)"
    using obj leaf by simp
  have "map_of (sessionFiles (reg_storage r1)) sid \<noteq> None"
    using stored r1(4) par(3) by simp
  from finishDelete_present[OF this, of cfg clock] obtain r' where
    fin: "finishDelete cfg clock sid r1 = (Inr True, r')" by blast
  from finishDelete_ok[OF fin] have r': "sid \<notin> reg_cached r'"
    "map_of (sessionFiles (reg_storage r')) sid = None"
    "reg_objects r' = reg_objects r1" "reg_cached r' = reg_cached r1 - {sid}"
    "map_of (sessionFiles (reg_storage r')) = (map_of (sessionFiles (reg_storage r1)))(sid := None)"
    by simp_all
  have pc: "pid \<in> reg_cached r" using p(1) by (auto simp: sessions_get_def split: if_splits)
  have "deleteSession (Suc (Suc n)) cfg clock sid r = Some (Inr True, r')"
    using s r1(1) loop fin by simp
  moreover have "sessions_get r' pid = Some ?p'"
    using r' r1 pc par(3) by (simp add: sessions_get_def)
  moreover have "map_of (sessionFiles (reg_storage r')) pid = Some ?p'"
    using r'(5) r1(4) par(3) by simp
  ultimately show ?thesis using r'(1,2) by blast
qed

text \<open>
  C9 (as the code has it): whenever \<open>deleteSession\<close> returns a value, the value is
  true and the session is off the cache and off the storage. When the id is neither
  cached nor stored, \<open>deleteSession\<close> does not return true: it fails with the
  \<open>StorageError\<close> of the failed unlink and changes nothing. For a cached and stored
  session without children, whose cached parent is valid, it returns true, removes the
  session from cache and storage, and takes its id off the parent's
  \<open>childSessionIds\<close>, in the cached parent and in the parent's file.
\<close>

theorem deleteSession_effects:
  "(deleteSession fuel cfg clock sid r = Some (Inr b, r') \<longrightarrow>
      b \<and> sid \<notin> reg_cached r' \<and> map_of (sessionFiles (reg_storage r')) sid = None)
   \<and> (sid \<notin> reg_cached r \<and> map_of (sessionFiles (reg_storage r)) sid = None \<longrightarrow>
        deleteSession (Suc n) cfg clock sid r
          = Some (Inl (StorageError (''Failed to delete session '' @ sid)), r))
   \<and> (sessions_get r sid = Some s \<and> sess_childSessionIds s = []
        \<and> map_of (sessionFiles (reg_storage r)) sid \<noteq> None
        \<and> sess_parentSessionId s = Some pid \<and> pid \<noteq> [] \<and> pid \<noteq> sid
        \<and> sessions_get r pid = Some p \<and> sess_id p = pid \<and> fst (validateSession p) \<longrightarrow>
        (\<exists>r''. deleteSession (Suc (Suc n)) cfg clock sid r = Some (Inr True, r'')
           \<and> sid \<notin> reg_cached r'' \<and> map_of (sessionFiles (reg_storage r'')) sid = None
           \<and> sessions_get r'' pid = Some (removeChildSession sid (clk_now clock) p)
           \<and> map_of (sessionFiles (reg_storage r'')) pid = Some (removeChildSession sid (clk_now clock) p)
           \<and> sess_childSessionIds (removeChildSession sid (clk_now clock) p)
               = remove1 sid (sess_childSessionIds p)))"
proof (intro conjI)
  show "deleteSession fuel cfg clock sid r = Some (Inr b, r') \<longrightarrow>
      b \<and> sid \<notin> reg_cached r' \<and> map_of (sessionFiles (reg_storage r')) sid = None"
    using deleteSession_success[of fuel cfg clock sid r b r'] by blast
next
  show "sid \<notin> reg_cached r \<and> map_of (sessionFiles (reg_storage r)) sid = None \<longrightarrow>
        deleteSession (Suc n) cfg clock sid r
          = Some (Inl (StorageError (''Failed to delete session '' @ sid)), r)"
    using deleteSession_absent[of sid r n cfg clock] by blast
next
  show "sessions_get r sid = Some s \<and> sess_childSessionIds s = []
        \<and> map_of (sessionFiles (reg_storage r)) sid \<noteq> None
        \<and> sess_parentSessionId s = Some pid \<and> pid \<noteq> [] \<and> pid \<noteq> sid
        \<and> sessions_get r pid = Some p \<and> sess_id p = pid \<and> fst (validateSession p) \<longrightarrow>
        (\<exists>r''. deleteSession (Suc (Suc n)) cfg clock sid r = Some (Inr True, r'')
           \<and> sid \<notin> reg_cached r'' \<and> map_of (sessionFiles (reg_storage r'')) sid = None
           \<and> sessions_get r'' pid = Some (removeChildSession sid (clk_now clock) p)
           \<and> map_of (sessionFiles (reg_storage r'')) pid = Some (removeChildSession sid (clk_now clock) p)
           \<and> sess_childSessionIds (removeChildSession sid (clk_now clock) p)
               = remove1 sid (sess_childSessionIds p))"
    using deleteSession_leaf[of r sid s pid p n cfg clock]
      removeChildSession_children[of sid "clk_now clock" p]
    by (intro impI) (elim conjE, simp)
qed

lemma fam_get:
  "sessions_get familyRegistry ''session-c1'' =
     Some \<lparr>sess_id = ''session-c1'', sess_type = TASK,
      sess_orchestrationId = ''orch-1'', sess_timestamp = 2,
      sess_state = ACTIVE, sess_parentSessionId = Some ''session-p'',
      sess_childSessionIds = [], sess_lastActivityAt = 2,
      sess_completedAt = None, sess_failureReason = None\<rparr>"
  by code_simp

text \<open>
  The claim as written fails twice. The parent \<open>session-p\<close> lists the children
  \<open>session-c1\<close> and \<open>session-c2\<close>; deleting it returns true and leaves
  \<open>session-c2\<close> in the cache and in the storage: deleting the first child removes
  it from the array the loop iterates, so the iterator steps over the second. And
  deleting an id that does not exist fails with a \<open>StorageError\<close>.
\<close>

theorem deleteSession_cascade_counterexample:
  "sess_childSessionIds (the (sessions_get familyRegistry ''session-p'')) = [''session-c1'', ''session-c2'']
   \<and> map_option sess_parentSessionId (sessions_get familyRegistry ''session-c2'') = Some (Some ''session-p'')
   \<and> (case deleteSession 20 defaultConfig clock9 ''session-p'' familyRegistry of
         Some (Inr True, r') \<Rightarrow>
           ''session-c2'' \<in> reg_cached r'
           \<and> map_option sess_id (map_of (sessionFiles (reg_storage r')) ''session-c2'') = Some ''session-c2''
       | _ \<Rightarrow> False)
   \<and> sessions_get familyRegistry ''session-x'' = None
   \<and> loadSession (reg_storage familyRegistry) ''session-x'' = Inr None
   \<and> map_option fst (deleteSession 20 defaultConfig clock9 ''session-x'' familyRegistry)
        = Some (Inl (StorageError ''Failed to delete session session-x''))"
  by code_simp

theorem deleteSession_effects_witness:
  "map_option sess_childSessionIds (sessions_get familyRegistry ''session-c1'') = Some []
   \<and> map_option sess_parentSessionId (sessions_get familyRegistry ''session-c1'') = Some (Some ''session-p'')
   \<and> map_option sess_id (sessions_get familyRegistry ''session-p'') = Some ''session-p''
   \<and> map_option (fst \<circ> validateSession) (sessions_get familyRegistry ''session-p'') = Some True
   \<and> map_of (sessionFiles (reg_storage familyRegistry)) ''session-c1'' \<noteq> None
   \<and> (\<exists>r''. deleteSession 20 defaultConfig clock9 ''session-c1'' familyRegistry = Some (Inr True, r'')
         \<and> ''session-c1'' \<notin> reg_cached r''
         \<and> map_of (sessionFiles (reg_storage r'')) ''session-c1'' = None
         \<and> map_option sess_childSessionIds (sessions_get r'' ''session-p'') = Some [''session-c2'']
         \<and> map_option sess_childSessionIds (map_of (sessionFiles (reg_storage r'')) ''session-p'')
              = Some [''session-c2''])
   \<and> ''session-x'' \<notin> reg_cached familyRegistry
   \<and> map_of (sessionFiles (reg_storage familyRegistry)) ''session-x'' = None
   \<and> deleteSession 20 defaultConfig clock9 ''session-x'' familyRegistry
        = Some (Inl (StorageError ''Failed to delete session session-x''), familyRegistry)"
proof -
  obtain s where s: "sessions_get familyRegistry ''session-c1'' = Some s"
     "sess_childSessionIds s = []" "sess_parentSessionId s = Some ''session-p''"
    using fam_get by simp
  obtain p where p: "sessions_get familyRegistry ''session-p'' = Some p" "sess_id p = ''session-p''"
     "fst (validateSession p)" "sess_childSessionIds p = [''session-c1'', ''session-c2'']"
  proof -
    have "sessions_get familyRegistry ''session-p'' =
      Some \<lparr>sess_id = ''session-p'', sess_type = TASK,
      sess_orchestrationId = ''orch-1'', sess_timestamp = 1,
      sess_state = ACTIVE, sess_parentSessionId = None,
      sess_childSessionIds = [''session-c1'', ''session-c2''],
      sess_lastActivityAt = 3, sess_completedAt = None,
      sess_failureReason = None\<rparr>" by code_simp
    then show ?thesis using that by (simp add: validateSession_def)
  qed
  have st: "map_of (sessionFiles (reg_storage familyRegistry)) ''session-c1'' \<noteq> None" by code_simp
  have x: "''session-x'' \<notin> reg_cached familyRegistry"
     "map_of (sessionFiles (reg_storage familyRegistry)) ''session-x'' = None" by code_simp+
  have ne: "''session-p'' \<noteq> ''session-c1''" "''session-p'' \<noteq> []" by simp_all
  note th1 = deleteSession_effects[where fuel = 0 and n = 18 and cfg = defaultConfig and clock = clock9
      and sid = "''session-c1''" and r = familyRegistry and s = s and pid = "''session-p''" and p = p]
  note th2 = deleteSession_effects[where fuel = 0 and n = 19 and cfg = defaultConfig and clock = clock9
      and sid = "''session-x''" and r = familyRegistry]
  have n20: "Suc (Suc 18) = 20" "Suc 19 = 20" by simp_all
  show ?thesis
    using th1 th2 s p st x ne unfolding n20
    by (auto simp: removeChildSession_children)
qed

subsection \<open>C3: createSession and the parent link\<close>

lemma set_insort_cmp: "set (insort_cmp cmp x xs) = insert x (set xs)"
  by (induction xs) auto

lemma set_sort_cmp: "set (sort_cmp cmp xs) = set xs"
  by (induction xs) (auto simp: sort_cmp_def set_insort_cmp)

lemma storage_querySessions_member:
  assumes "map_of (sessionFiles st) k = Some d" "fst (validateSession d)" "matchesQuery d query"
  shows "d \<in> set (storage_querySessions st query)"
proof -
  have "(k, d) \<in> set (sessionFiles st)" using assms(1) by (rule map_of_SomeD)
  moreover have "loadSession st k = Inr (Some d)" using assms(1,2) by (simp add: loadSession_def Let_def)
  ultimately show ?thesis using assms(3)
    by (force simp: storage_querySessions_def set_sort_cmp)
qed

lemma registry_wf_set:
  "registry_wf r \<Longrightarrow> registry_wf (sessions_set r (sess_id d) d)"
  by (auto simp: registry_wf_def sessions_set_def)

lemma attachSessions_find:
  assumes "registry_wf r" "pid \<in> reg_cached r" "reg_objects r pid = Some p" "pid \<in> sess_id ` set ds"
  shows "find (\<lambda>s. sess_id s = pid) (fst (attachSessions ds r)) = Some p"
  using assms
proof (induction ds arbitrary: r)
  case Nil
  then show ?case by simp
next
  case (Cons d ds)
  show ?case
  proof (cases "sess_id d \<in> reg_cached r")
    case True
    then obtain s where s: "reg_objects r (sess_id d) = Some s" "sess_id s = sess_id d"
      using Cons.prems(1) by (auto simp: registry_wf_def)
    have get: "sessions_get r (sess_id d) = Some s" using True s by (simp add: sessions_get_def)
    show ?thesis
    proof (cases "sess_id d = pid")
      case True
      then show ?thesis using get s Cons.prems(3) by (cases "attachSessions ds r") simp
    next
      case False
      then have "pid \<in> sess_id ` set ds" using Cons.prems(4) by auto
      from Cons.IH[OF Cons.prems(1,2,3) this] show ?thesis
        using get s False by (cases "attachSessions ds r") simp
    qed
  next
    case False
    then have get: "sessions_get r (sess_id d) = None" by (simp add: sessions_get_def)
    have ne: "sess_id d \<noteq> pid" using False Cons.prems(2) by auto
    then have in': "pid \<in> sess_id ` set ds" using Cons.prems(4) by auto
    let ?r1 = "sessions_set r (sess_id d) d"
    have "registry_wf ?r1" using Cons.prems(1) by (rule registry_wf_set)
    moreover have "pid \<in> reg_cached ?r1" using Cons.prems(2) by (simp add: sessions_set_def)
    moreover have "reg_objects ?r1 pid = Some p" using Cons.prems(3) ne by (simp add: sessions_set_def)
    ultimately have "find (\<lambda>s. sess_id s = pid) (fst (attachSessions ds ?r1)) = Some p"
      using in' by (rule Cons.IH)
    then show ?thesis using get ne by (cases "attachSessions ds ?r1") simp
  qed
qed

lemma addChildSession_keeps [simp]:
  "sess_id (addChildSession c now p) = sess_id p"
  "sess_orchestrationId (addChildSession c now p) = sess_orchestrationId p"
  by (simp_all add: addChildSession_def)

lemma addChildSession_member: "c \<in> set (sess_childSessionIds (addChildSession c now p))"
  by (simp add: addChildSession_def)

lemma createSession_with_parent:
  assumes p: "sessions_get r pid = Some p" "sess_id p = pid" "sess_orchestrationId p = oid"
    and ne: "oid \<noteq> []" "pid \<noteq> []"
    and params: "cp_parentSessionId params = Some pid" "cp_orchestrationId params = oid"
    and fresh: "''session-'' @ idSuffix \<notin> reg_cached r"
  shows "\<exists>r'. createSession cfg clock params idSuffix r
                 = (Inr (newSession params idSuffix (clk_now clock)), r')
           \<and> reg_objects r' = (reg_objects r)
                 (''session-'' @ idSuffix \<mapsto> newSession params idSuffix (clk_now clock),
                  pid \<mapsto> addChildSession (''session-'' @ idSuffix) (clk_now clock) p)
           \<and> reg_cached r' = insert (''session-'' @ idSuffix) (reg_cached r)
           \<and> map_of (sessionFiles (reg_storage r')) = (map_of (sessionFiles (reg_storage r)))
                 (''session-'' @ idSuffix \<mapsto> newSession params idSuffix (clk_now clock),
                  pid \<mapsto> addChildSession (''session-'' @ idSuffix) (clk_now clock) p)"
proof -
  let ?cid = "''session-'' @ idSuffix"
  let ?c = "newSession params idSuffix (clk_now clock)"
  let ?p' = "addChildSession ?cid (clk_now clock) p"
  have cid: "sess_id ?c = ?cid" by (simp add: newSession_def)
  have pc: "pid \<in> reg_cached r" "reg_objects r pid = Some p"
    using p(1) by (auto simp: sessions_get_def split: if_splits)
  have neq: "pid \<noteq> ?cid" using pc(1) fresh by auto
  have vc: "fst (validateSession ?c)" using ne params by (simp add: validateSession_iff newSession_def)
  have vp: "fst (validateSession ?p')" using ne p by (simp add: validateSession_iff)
  let ?r1 = "sessions_set r ?cid ?c"
  from saveSession_valid[OF vc, of cfg clock "reg_storage ?r1"] obtain st where
    st: "saveSession cfg clock ?c (reg_storage ?r1) = (Inr (), st)"
      "map_of (sessionFiles st) = (map_of (sessionFiles (reg_storage ?r1)))(sess_id ?c \<mapsto> ?c)" by blast
  let ?r2 = "?r1 \<lparr> reg_storage := st \<rparr>"
  have get: "sessions_get ?r2 pid = Some p"
    using pc neq by (simp add: sessions_get_def sessions_set_def)
  let ?r3 = "?r2 \<lparr> reg_objects := (reg_objects ?r2)(pid \<mapsto> ?p') \<rparr>"
  from saveSession_valid[OF vp, of cfg clock "reg_storage ?r3"] obtain st' where
    st': "saveSession cfg clock ?p' (reg_storage ?r3) = (Inr (), st')"
      "map_of (sessionFiles st') = (map_of (sessionFiles (reg_storage ?r3)))(sess_id ?p' \<mapsto> ?p')" by blast
  have "createSession cfg clock params idSuffix r = (Inr ?c, ?r3 \<lparr> reg_storage := st' \<rparr>)"
    using st(1) st'(1) get params ne neq cid
    by (simp add: createSession_def Let_def del: fun_upd_apply)
  moreover have "reg_objects (?r3 \<lparr> reg_storage := st' \<rparr>) = (reg_objects r)(?cid \<mapsto> ?c, pid \<mapsto> ?p')"
    by (simp add: sessions_set_def)
  moreover have "reg_cached (?r3 \<lparr> reg_storage := st' \<rparr>) = insert ?cid (reg_cached r)"
    by (simp add: sessions_set_def)
  moreover have "map_of (sessionFiles (reg_storage (?r3 \<lparr> reg_storage := st' \<rparr>)))
      = (map_of (sessionFiles (reg_storage r)))(?cid \<mapsto> ?c, pid \<mapsto> ?p')"
    using st(2) st'(2) cid p(2) by (simp add: sessions_set_def)
  ultimately show ?thesis by blast
qed

lemma findRelatedSessions_parent:
  assumes wf: "registry_wf r"
    and c: "sessions_get r cid = Some c" "sess_parentSessionId c = Some pid" "pid \<noteq> []"
    and p: "sessions_get r pid = Some p" "sess_id p = pid"
       "sess_orchestrationId p = sess_orchestrationId c" "sess_orchestrationId c \<noteq> []"
    and stored: "map_of (sessionFiles (reg_storage r)) pid = Some p"
  shows "\<exists>rel r'. findRelatedSessions r cid = (Inr rel, r') \<and> rel_parent rel = Some p"
proof -
  let ?q = "\<lparr> sq_orchestrationId = Some (sess_orchestrationId c), sq_state = None \<rparr>"
  have g: "getSession r cid = (Inr (Some c), r)" using c(1) by (simp add: getSession_def)
  have v: "fst (validateSession p)" using p c(3) by (simp add: validateSession_iff)
  have m: "matchesQuery p ?q" using p by (simp add: matchesQuery_def)
  have "p \<in> set (storage_querySessions (reg_storage r) ?q)"
    using storage_querySessions_member[OF stored v m] .
  then have mem: "pid \<in> sess_id ` set (storage_querySessions (reg_storage r) ?q)"
    using p(2) by force
  have pc: "pid \<in> reg_cached r" "reg_objects r pid = Some p"
    using p(1) by (auto simp: sessions_get_def split: if_splits)
  have f: "find (\<lambda>s. sess_id s = pid) (fst (querySessions r ?q)) = Some p"
    unfolding querySessions_def using attachSessions_find[OF wf pc mem] .
  obtain allSessions r2 where q: "querySessions r ?q = (allSessions, r2)" by (cases "querySessions r ?q")
  show ?thesis using g q f c(2,3) by (simp add: findRelatedSessions_def)
qed

text \<open>
  C3 (as the code has it): let the registry be well formed and hold the parent P in
  its cache, under its id, and let \<open>createSession\<close> be called with
  \<open>parentSessionId = P.id\<close>, with P's (non-empty) orchestration id, and with an id that is
  not cached yet. Then the call returns the child C with \<open>parentSessionId = P.id\<close>; C is
  cached and stored; the cached parent, and the parent's file written back, list C's
  id among \<open>childSessionIds\<close>; and \<open>findRelatedSessions(C.id)\<close> reports that
  parent.
\<close>

theorem createSession_links_parent:
  assumes "registry_wf r"
    and "sessions_get r pid = Some p" and "sess_id p = pid" and "pid \<noteq> []"
    and "sess_orchestrationId p = cp_orchestrationId params" and "cp_orchestrationId params \<noteq> []"
    and "cp_parentSessionId params = Some pid"
    and "''session-'' @ idSuffix \<notin> reg_cached r"
  shows "\<exists>c r' p' rel r''.
           createSession cfg clock params idSuffix r = (Inr c, r')
           \<and> sess_id c = ''session-'' @ idSuffix \<and> sess_parentSessionId c = Some pid
           \<and> sessions_get r' (sess_id c) = Some c
           \<and> map_of (sessionFiles (reg_storage r')) (sess_id c) = Some c
           \<and> sessions_get r' pid = Some p' \<and> sess_id p' = pid
           \<and> sess_id c \<in> set (sess_childSessionIds p')
           \<and> map_of (sessionFiles (reg_storage r')) pid = Some p'
           \<and> findRelatedSessions r' (sess_id c) = (Inr rel, r'')
           \<and> rel_parent rel = Some p'"
proof -
  let ?cid = "''session-'' @ idSuffix"
  let ?c = "newSession params idSuffix (clk_now clock)"
  let ?p' = "addChildSession ?cid (clk_now clock) p"
  from createSession_with_parent[OF assms(2,3,5,6,4,7) refl assms(8), of cfg clock]
  obtain r' where r':
    "createSession cfg clock params idSuffix r = (Inr ?c, r')"
    "reg_objects r' = (reg_objects r)(?cid \<mapsto> ?c, pid \<mapsto> ?p')"
    "reg_cached r' = insert ?cid (reg_cached r)"
    "map_of (sessionFiles (reg_storage r')) = (map_of (sessionFiles (reg_storage r)))(?cid \<mapsto> ?c, pid \<mapsto> ?p')"
    by blast
  have pc: "pid \<in> reg_cached r" using assms(2) by (auto simp: sessions_get_def split: if_splits)
  have neq: "pid \<noteq> ?cid" using pc assms(8) by auto
  have cid: "sess_id ?c = ?cid" "sess_parentSessionId ?c = Some pid"
    "sess_orchestrationId ?c = cp_orchestrationId params"
    using assms(7) by (simp_all add: newSession_def)
  have gc: "sessions_get r' ?cid = Some ?c" using r'(2,3) neq by (simp add: sessions_get_def)
  have gp: "sessions_get r' pid = Some ?p'" using r'(2,3) pc by (simp add: sessions_get_def)
  have fc: "map_of (sessionFiles (reg_storage r')) ?cid = Some ?c" using r'(4) neq by simp
  have fp: "map_of (sessionFiles (reg_storage r')) pid = Some ?p'" using r'(4) by simp
  have wf': "registry_wf r'"
    using assms(1,3) r'(2,3) cid(1) by (auto simp: registry_wf_def)
  have idp: "sess_id ?p' = pid" using assms(3) by simp
  have op: "sess_orchestrationId ?p' = sess_orchestrationId ?c" using assms(5) cid(3) by simp
  have oc: "sess_orchestrationId ?c \<noteq> []" using assms(6) cid(3) by simp
  from findRelatedSessions_parent[OF wf' gc cid(2) assms(4) gp idp op oc fp]
  obtain rel r'' where rel: "findRelatedSessions r' ?cid = (Inr rel, r'')" "rel_parent rel = Some ?p'"
    by blast
  show ?thesis
    using r'(1) cid gc fc gp idp fp rel addChildSession_member[of ?cid "clk_now clock" p]
    by (intro exI[of _ ?c] exI[of _ r'] exI[of _ ?p'] exI[of _ rel] exI[of _ r'']) simp
qed

theorem createSession_links_parent_witness:
  "registry_wf parentRegistry
   \<and> map_option sess_id (sessions_get parentRegistry ''session-p'') = Some ''session-p''
   \<and> map_option sess_orchestrationId (sessions_get parentRegistry ''session-p'')
        = Some (cp_orchestrationId (paramsFor ''orch-1'' (Some ''session-p'')))
   \<and> cp_parentSessionId (paramsFor ''orch-1'' (Some ''session-p'')) = Some ''session-p''
   \<and> ''session-'' @ ''c1'' \<notin> reg_cached parentRegistry
   \<and> (\<exists>c r' p' rel r''.
           createSession defaultConfig clock2 (paramsFor ''orch-1'' (Some ''session-p'')) ''c1'' parentRegistry
             = (Inr c, r')
           \<and> sess_id c = ''session-c1'' \<and> sess_parentSessionId c = Some ''session-p''
           \<and> sessions_get r' ''session-c1'' = Some c
           \<and> sessions_get r' ''session-p'' = Some p'
           \<and> ''session-c1'' \<in> set (sess_childSessionIds p')
           \<and> map_of (sessionFiles (reg_storage r')) ''session-p'' = Some p'
           \<and> findRelatedSessions r' ''session-c1'' = (Inr rel, r'')
           \<and> rel_parent rel = Some p')"
proof -
  have ks: "reg_cached parentRegistry = {''session-p''}" by code_simp
  have ob: "map_option sess_id (reg_objects parentRegistry ''session-p'') = Some ''session-p''"
    by code_simp
  have wf: "registry_wf parentRegistry" using ks ob by (auto simp: registry_wf_def)
  have g: "sessions_get parentRegistry ''session-p'' =
     Some \<lparr>sess_id = ''session-p'', sess_type = TASK,
      sess_orchestrationId = ''orch-1'', sess_timestamp = 1,
      sess_state = ACTIVE, sess_parentSessionId = None,
      sess_childSessionIds = [], sess_lastActivityAt = 1,
      sess_completedAt = None, sess_failureReason = None\<rparr>" by code_simp
  have pr: "cp_orchestrationId (paramsFor ''orch-1'' (Some ''session-p'')) = ''orch-1''"
     "cp_parentSessionId (paramsFor ''orch-1'' (Some ''session-p'')) = Some ''session-p''"
    by (simp_all add: paramsFor_def)
  have fresh: "''session-'' @ ''c1'' \<notin> reg_cached parentRegistry" by code_simp
  from createSession_links_parent[OF wf g _ _ _ _ pr(2) fresh, of defaultConfig clock2]
  have "\<exists>c r' p' rel r''.
           createSession defaultConfig clock2 (paramsFor ''orch-1'' (Some ''session-p'')) ''c1'' parentRegistry
             = (Inr c, r')
           \<and> sess_id c = ''session-'' @ ''c1'' \<and> sess_parentSessionId c = Some ''session-p''
           \<and> sessions_get r' (sess_id c) = Some c
           \<and> map_of (sessionFiles (reg_storage r')) (sess_id c) = Some c
           \<and> sessions_get r' ''session-p'' = Some p' \<and> sess_id p' = ''session-p''
           \<and> sess_id c \<in> set (sess_childSessionIds p')
           \<and> map_of (sessionFiles (reg_storage r')) ''session-p'' = Some p'
           \<and> findRelatedSessions r' (sess_id c) = (Inr rel, r'')
           \<and> rel_parent rel = Some p'"
    by (simp add: pr)
  then obtain c r' p' rel r'' where
    "createSession defaultConfig clock2 (paramsFor ''orch-1'' (Some ''session-p'')) ''c1'' parentRegistry
             = (Inr c, r')"
    "sess_id c = ''session-c1''" "sess_parentSessionId c = Some ''session-p''"
    "sessions_get r' (sess_id c) = Some c"
    "sessions_get r' ''session-p'' = Some p'"
    "sess_id c \<in> set (sess_childSessionIds p')"
    "map_of (sessionFiles (reg_storage r')) ''session-p'' = Some p'"
    "findRelatedSessions r' (sess_id c) = (Inr rel, r'')"
    "rel_parent rel = Some p'"
    by auto
  then show ?thesis using wf g pr fresh by auto
qed

text \<open>
  The claim as written fails for a parent that exists in the storage and is not in the
  Map of the registry: \<open>createSession\<close> looks the parent up in the Map only, so the
  child of \<open>session-p\<close>, created in the parent's orchestration, is stored with
  \<open>parentSessionId = session-p\<close>, while the parent's file is neither read nor written
  and its \<open>childSessionIds\<close> stays empty; \<open>findRelatedSessions\<close> reports that parent,
  which does not list the child.
\<close>

theorem createSession_uncached_parent_counterexample:
  "map_sum id (map_option (\<lambda>p. (sess_id p, sess_orchestrationId p, sess_childSessionIds p)))
       (loadSession (reg_storage restartedRegistry) ''session-p'')
     = Inr (Some (''session-p'', ''orch-1'', []))
   \<and> sessions_get restartedRegistry ''session-p'' = None
   \<and> (case createSession defaultConfig clock2 (paramsFor ''orch-1'' (Some ''session-p'')) ''c1''
             restartedRegistry of
         (Inr c, r') \<Rightarrow>
           sess_id c = ''session-c1'' \<and> sess_parentSessionId c = Some ''session-p''
           \<and> sess_orchestrationId c = ''orch-1''
           \<and> map_option sess_id (map_of (sessionFiles (reg_storage r')) ''session-c1'')
                = Some ''session-c1''
           \<and> map_option sess_childSessionIds (map_of (sessionFiles (reg_storage r')) ''session-p'')
                = Some []
           \<and> sessions_get r' ''session-p'' = None
           \<and> (case findRelatedSessions r' ''session-c1'' of
                 (Inr rel, r'') \<Rightarrow>
                   map_option (\<lambda>p. (sess_id p, sess_childSessionIds p)) (rel_parent rel)
                     = Some (''session-p'', [])
               | _ \<Rightarrow> False)
       | _ \<Rightarrow> False)"
  by code_simp

subsection \<open>C6: getNextTask and checkDependencies\<close>

lemma priorityOrder_range: "1 \<le> priorityOrder p \<and> priorityOrder p \<le> 4"
  by (cases p) simp_all

lemma nextTaskCompare_key: "nextTaskCompare a b \<le> 0 \<longleftrightarrow> nextKey a \<le> nextKey b"
proof -
  have a: "1 \<le> priorityOrder (task_priority a)" "priorityOrder (task_priority a) \<le> 4"
    and b: "1 \<le> priorityOrder (task_priority b)" "priorityOrder (task_priority b) \<le> 4"
    using priorityOrder_range by blast+
  show ?thesis
  proof (cases "task_dependencies a = []"; cases "task_dependencies b = []")
  qed (use a b in \<open>simp_all add: nextTaskCompare_def nextKey_def\<close>)
qed

lemma insort_cmp_key:
  assumes "\<And>a b. cmp a b \<le> 0 \<longleftrightarrow> k a \<le> (k b :: int)"
  shows "insort_cmp cmp x xs = insort_key k x xs"
  by (induction xs) (simp_all add: assms)

lemma sort_cmp_key:
  assumes "\<And>a b. cmp a b \<le> 0 \<longleftrightarrow> k a \<le> (k b :: int)"
  shows "sort_cmp cmp xs = sort_key k xs"
  by (induction xs) (simp_all add: sort_cmp_def sort_key_def insort_cmp_key[OF assms])

lemma sort_cmp_head_min:
  assumes key: "\<And>a b. cmp a b \<le> 0 \<longleftrightarrow> k a \<le> (k b :: int)"
    and hd: "sort_cmp cmp xs = t # rest"
  shows "t \<in> set xs \<and> (\<forall>x \<in> set xs. k t \<le> k x)"
proof -
  have eq: "sort_key k xs = t # rest" using hd by (simp add: sort_cmp_key[OF key])
  have "sorted (map k (t # rest))" using sorted_sort_key[of k xs] eq by simp
  then have "\<forall>x \<in> set (t # rest). k t \<le> k x" by auto
  moreover have "set (t # rest) = set xs" using eq set_sort[of k xs] by simp
  ultimately show ?thesis by auto
qed

lemma queryTasks_set: "set (queryTasks store q) = {t \<in> set store. taskMatchesQuery t q}"
  by (auto simp: queryTasks_def set_sort_cmp)

lemma matches_not_started:
  "oid \<noteq> [] \<Longrightarrow>
     taskMatchesQuery t \<lparr> q_orchestrationId = Some oid, q_status = Some NOT_STARTED \<rparr>
       \<longleftrightarrow> task_orchestrationId t = oid \<and> task_status t = NOT_STARTED"
  by (auto simp: taskMatchesQuery_def)

lemma getNextTask_None:
  assumes "oid \<noteq> []"
  shows "getNextTask store oid = None
           \<longleftrightarrow> (\<forall>t \<in> set store. \<not> (task_orchestrationId t = oid \<and> task_status t = NOT_STARTED))"
proof -
  let ?q = "\<lparr> q_orchestrationId = Some oid, q_status = Some NOT_STARTED \<rparr>"
  have s: "set (queryTasks store ?q)
             = {t \<in> set store. task_orchestrationId t = oid \<and> task_status t = NOT_STARTED}"
    using matches_not_started[OF assms] by (simp add: queryTasks_set)
  have ne: "sort_cmp nextTaskCompare (queryTasks store ?q) = [] \<longleftrightarrow> queryTasks store ?q = []"
    using set_sort_cmp[of nextTaskCompare "queryTasks store ?q"] by (metis set_empty)
  have "getNextTask store oid = None \<longleftrightarrow> queryTasks store ?q = []"
    using ne by (auto simp: getNextTask_def Let_def split: list.splits)
  also have "\<dots> \<longleftrightarrow> set (queryTasks store ?q) = {}" by simp
  also have "\<dots> \<longleftrightarrow> (\<forall>t \<in> set store. \<not> (task_orchestrationId t = oid \<and> task_status t = NOT_STARTED))"
    unfolding s by blast
  finally show ?thesis .
qed

lemma getNextTask_Some:
  assumes "oid \<noteq> []" "getNextTask store oid = Some t"
  shows "t \<in> set store \<and> task_orchestrationId t = oid \<and> task_status t = NOT_STARTED
         \<and> (\<forall>t' \<in> set store. task_orchestrationId t' = oid \<and> task_status t' = NOT_STARTED \<longrightarrow>
               (task_dependencies t' = [] \<longrightarrow> task_dependencies t = [])
               \<and> ((task_dependencies t' = [] \<longleftrightarrow> task_dependencies t = []) \<longrightarrow>
                    priorityOrder (task_priority t') \<le> priorityOrder (task_priority t)))"
proof -
  let ?q = "\<lparr> q_orchestrationId = Some oid, q_status = Some NOT_STARTED \<rparr>"
  have s: "set (queryTasks store ?q)
             = {t \<in> set store. task_orchestrationId t = oid \<and> task_status t = NOT_STARTED}"
    using matches_not_started[OF assms(1)] by (simp add: queryTasks_set)
  obtain rest where hd: "sort_cmp nextTaskCompare (queryTasks store ?q) = t # rest"
    using assms(2) by (auto simp: getNextTask_def Let_def split: list.splits if_splits)
  from sort_cmp_head_min[of nextTaskCompare nextKey, OF nextTaskCompare_key hd]
  have mem: "t \<in> set (queryTasks store ?q)"
    and min: "\<forall>x \<in> set (queryTasks store ?q). nextKey t \<le> nextKey x" by simp_all
  have "\<forall>t' \<in> set store. task_orchestrationId t' = oid \<and> task_status t' = NOT_STARTED \<longrightarrow>
               (task_dependencies t' = [] \<longrightarrow> task_dependencies t = [])
               \<and> ((task_dependencies t' = [] \<longleftrightarrow> task_dependencies t = []) \<longrightarrow>
                    priorityOrder (task_priority t') \<le> priorityOrder (task_priority t))"
  proof (intro ballI impI)
    fix t' assume t': "t' \<in> set store" "task_orchestrationId t' = oid \<and> task_status t' = NOT_STARTED"
    then have k: "nextKey t \<le> nextKey t'" using min s by auto
    have rt: "1 \<le> priorityOrder (task_priority t)" "priorityOrder (task_priority t) \<le> 4"
      and rt': "1 \<le> priorityOrder (task_priority t')" "priorityOrder (task_priority t') \<le> 4"
      using priorityOrder_range by blast+
    show "(task_dependencies t' = [] \<longrightarrow> task_dependencies t = [])
               \<and> ((task_dependencies t' = [] \<longleftrightarrow> task_dependencies t = []) \<longrightarrow>
                    priorityOrder (task_priority t') \<le> priorityOrder (task_priority t))"
      using k rt rt' by (auto simp: nextKey_def split: if_splits)
  qed
  then show ?thesis using mem s by auto
qed

lemma scenarioStore_eq:
  "scenarioStore cA cB cC =
     [scenarioTask ''task-a'' ''A'' [] NOT_STARTED cA,
      scenarioTask ''task-b'' ''B'' [''task-a''] NOT_STARTED cB,
      scenarioTask ''task-c'' ''C'' [''task-b''] NOT_STARTED cC]"
  by (simp add: scenarioStore_def createTask_def scenarioParams_def scenarioTask_def Let_def)

lemma scenarioStoreDone_eq:
  "scenarioStoreDone cA cB cC now =
     [(scenarioTask ''task-a'' ''A'' [] COMPLETED cA)
        \<lparr> task_updatedAt := now, task_completedAt := Some now, task_startedAt := Some now \<rparr>,
      scenarioTask ''task-b'' ''B'' [''task-a''] NOT_STARTED cB,
      scenarioTask ''task-c'' ''C'' [''task-b''] NOT_STARTED cC]"
  by (simp add: scenarioStoreDone_def scenarioStore_eq updateTask_def loadTask_def statusOnly_def
      scenarioTask_def Let_def)

lemma three_orders:
  assumes "distinct xs" "set xs = {a, b, c}" "a \<noteq> b" "a \<noteq> c" "b \<noteq> c"
  shows "xs = [a, b, c] \<or> xs = [a, c, b] \<or> xs = [b, a, c] \<or> xs = [b, c, a]
         \<or> xs = [c, a, b] \<or> xs = [c, b, a]"
proof -
  have "card (set xs) = 3" using assms(2-5) by simp
  then have "length xs = 3" using distinct_card[OF assms(1)] by simp
  then obtain x y z where xs: "xs = [x, y, z]"
    by (auto simp: length_Suc_conv numeral_3_eq_3)
  have d: "x \<noteq> y" "x \<noteq> z" "y \<noteq> z" using assms(1) xs by auto
  have m: "x \<in> {a, b, c}" "y \<in> {a, b, c}" "z \<in> {a, b, c}" using assms(2) xs by auto
  have e: "a \<in> {x, y, z}" "b \<in> {x, y, z}" "c \<in> {x, y, z}" using assms(2) xs by auto
  show ?thesis unfolding xs using d m by auto
qed

lemma sameFiles_three:
  assumes "sameFiles [a, b, c] listing" "a \<noteq> b" "a \<noteq> c" "b \<noteq> c"
  shows "listing = [a, b, c] \<or> listing = [a, c, b] \<or> listing = [b, a, c]
         \<or> listing = [b, c, a] \<or> listing = [c, a, b] \<or> listing = [c, b, a]"
proof -
  have "distinct listing" using assms(1) by (auto simp: sameFiles_def distinct_map)
  moreover have "set listing = {a, b, c}" using assms(1) by (auto simp: sameFiles_def)
  ultimately show ?thesis using assms(2-4) by (intro three_orders)
qed

lemma scenario_first_any:
  assumes "sameFiles (scenarioStore cA cB cC) listing"
  shows "map_option task_name (getNextTask listing ''orch-1'') = Some ''A''"
proof -
  let ?a = "scenarioTask ''task-a'' ''A'' [] NOT_STARTED cA"
  let ?b = "scenarioTask ''task-b'' ''B'' [''task-a''] NOT_STARTED cB"
  let ?c = "scenarioTask ''task-c'' ''C'' [''task-b''] NOT_STARTED cC"
  have ne: "?a \<noteq> ?b" "?a \<noteq> ?c" "?b \<noteq> ?c" by (simp_all add: scenarioTask_def)
  from sameFiles_three[OF assms[unfolded scenarioStore_eq] ne]
  show ?thesis
    by (elim disjE)
      (simp_all add: scenarioTask_def getNextTask_def queryTasks_def
        taskMatchesQuery_def sort_cmp_def nextTaskCompare_def Let_def)
qed

lemma scenario_second_any:
  assumes "sameFiles (scenarioStoreDone cA cB cC now) listing"
  shows "map_sum id allSatisfied (checkDependencies listing ''task-b'') = Inr True"
    and "map_option task_name (getNextTask listing ''orch-1'')
         = (if cB < cC then Some ''C'' else if cC < cB then Some ''B''
            else map_option task_name (find (\<lambda>t. task_status t = NOT_STARTED) listing))"
proof -
  let ?a = "(scenarioTask ''task-a'' ''A'' [] COMPLETED cA)
        \<lparr> task_updatedAt := now, task_completedAt := Some now, task_startedAt := Some now \<rparr>"
  let ?b = "scenarioTask ''task-b'' ''B'' [''task-a''] NOT_STARTED cB"
  let ?c = "scenarioTask ''task-c'' ''C'' [''task-b''] NOT_STARTED cC"
  have ne: "?a \<noteq> ?b" "?a \<noteq> ?c" "?b \<noteq> ?c" by (simp_all add: scenarioTask_def)
  note cases = sameFiles_three[OF assms[unfolded scenarioStoreDone_eq] ne]
  from cases show "map_sum id allSatisfied (checkDependencies listing ''task-b'') = Inr True"
    by (elim disjE)
      (simp_all add: scenarioTask_def loadTask_def checkDependencies_def checkStep_def Let_def)
  from cases show "map_option task_name (getNextTask listing ''orch-1'')
         = (if cB < cC then Some ''C'' else if cC < cB then Some ''B''
            else map_option task_name (find (\<lambda>t. task_status t = NOT_STARTED) listing))"
    by (elim disjE)
      (simp_all add: scenarioTask_def getNextTask_def queryTasks_def
        taskMatchesQuery_def sort_cmp_def nextTaskCompare_def Let_def)
qed

lemma sameFiles_refl: "distinct (map task_id store) \<Longrightarrow> sameFiles store store"
  by (simp add: sameFiles_def)

lemma sameFiles_rev: "distinct (map task_id store) \<Longrightarrow> sameFiles store (rev store)"
  by (simp add: sameFiles_def rev_map[symmetric])

text \<open>
  C6 (as the code has it): for a non-empty orchestration id, \<open>getNextTask\<close> returns
  none exactly when the store holds no not_started task of that orchestration;
  otherwise it returns such a task, one without dependencies if any eligible task has
  none, and of the highest priority among the eligible tasks of its kind (with or
  without dependencies). In the scenario A, B (on A), C (on B), of equal priority and
  created at times \<open>cA\<close>, \<open>cB\<close>, \<open>cC\<close>, and for every order in which the directory
  lists the three files: it first returns A; after A is marked completed,
  \<open>checkDependencies(B)\<close> reports \<open>allSatisfied = true\<close>, and \<open>getNextTask\<close> returns
  the later created of B and C (the query sorts newest first and the comparator ties),
  and, when both were created at the same time, the one of the two that the directory
  lists first.
\<close>

theorem getNextTask_selection:
  "(oid \<noteq> [] \<longrightarrow>
      (getNextTask store oid = None
         \<longleftrightarrow> (\<forall>t \<in> set store. \<not> (task_orchestrationId t = oid \<and> task_status t = NOT_STARTED)))
      \<and> (getNextTask store oid = Some t \<longrightarrow>
            t \<in> set store \<and> task_orchestrationId t = oid \<and> task_status t = NOT_STARTED
            \<and> (\<forall>t' \<in> set store. task_orchestrationId t' = oid \<and> task_status t' = NOT_STARTED \<longrightarrow>
                  (task_dependencies t' = [] \<longrightarrow> task_dependencies t = [])
                  \<and> ((task_dependencies t' = [] \<longleftrightarrow> task_dependencies t = []) \<longrightarrow>
                       priorityOrder (task_priority t') \<le> priorityOrder (task_priority t)))))
   \<and> (sameFiles (scenarioStore cA cB cC) listing \<longrightarrow>
        map_option task_name (getNextTask listing ''orch-1'') = Some ''A'')
   \<and> (sameFiles (scenarioStoreDone cA cB cC now) listing' \<longrightarrow>
        map_sum id allSatisfied (checkDependencies listing' ''task-b'') = Inr True
        \<and> map_option task_name (getNextTask listing' ''orch-1'')
            = (if cB < cC then Some ''C'' else if cC < cB then Some ''B''
               else map_option task_name (find (\<lambda>t. task_status t = NOT_STARTED) listing')))"
  using getNextTask_None[of oid store] getNextTask_Some[of oid store t]
    scenario_first_any[of cA cB cC listing] scenario_second_any[of cA cB cC now listing']
  by (intro conjI impI) simp_all

theorem getNextTask_selection_witness:
  "''orch-1'' \<noteq> []
   \<and> (\<exists>t. getNextTask (scenarioStore 1 2 3) ''orch-1'' = Some t
          \<and> t \<in> set (scenarioStore 1 2 3) \<and> task_orchestrationId t = ''orch-1''
          \<and> task_status t = NOT_STARTED \<and> task_name t = ''A'')
   \<and> getNextTask [] ''orch-1'' = None
   \<and> sameFiles (scenarioStore 1 2 3) (rev (scenarioStore 1 2 3))
   \<and> map_option task_name (getNextTask (rev (scenarioStore 1 2 3)) ''orch-1'') = Some ''A''
   \<and> sameFiles (scenarioStoreDone 1 2 3 4) (rev (scenarioStoreDone 1 2 3 4))
   \<and> map_sum id allSatisfied (checkDependencies (rev (scenarioStoreDone 1 2 3 4)) ''task-b'') = Inr True
   \<and> map_option task_name (getNextTask (rev (scenarioStoreDone 1 2 3 4)) ''orch-1'') = Some ''C''
   \<and> sameFiles (scenarioStoreDone 1 3 2 4) (scenarioStoreDone 1 3 2 4)
   \<and> map_option task_name (getNextTask (scenarioStoreDone 1 3 2 4) ''orch-1'') = Some ''B''
   \<and> sameFiles (scenarioStoreDone 1 2 2 4) (scenarioStoreDone 1 2 2 4)
   \<and> map_option task_name (getNextTask (scenarioStoreDone 1 2 2 4) ''orch-1'') = Some ''B''
   \<and> sameFiles (scenarioStoreDone 1 2 2 4) (rev (scenarioStoreDone 1 2 2 4))
   \<and> map_option task_name (getNextTask (rev (scenarioStoreDone 1 2 2 4)) ''orch-1'') = Some ''C''"
proof -
  have ne: "''orch-1'' \<noteq> []" by simp
  have d0: "distinct (map task_id (scenarioStore 1 2 3))"
    and d1: "distinct (map task_id (scenarioStoreDone 1 2 3 4))"
    and d2: "distinct (map task_id (scenarioStoreDone 1 3 2 4))"
    and d3: "distinct (map task_id (scenarioStoreDone 1 2 2 4))" by code_simp+
  note f0 = sameFiles_refl[OF d0] and r0 = sameFiles_rev[OF d0] and r1 = sameFiles_rev[OF d1]
    and f2 = sameFiles_refl[OF d2] and f3 = sameFiles_refl[OF d3] and r3 = sameFiles_rev[OF d3]
  have a0: "map_option task_name (getNextTask (scenarioStore 1 2 3) ''orch-1'') = Some ''A''"
    using getNextTask_selection[of "''orch-1''" "[]" undefined 1 2 3 "scenarioStore 1 2 3" 4 "[]"] f0
    by simp
  then obtain t where t: "getNextTask (scenarioStore 1 2 3) ''orch-1'' = Some t" "task_name t = ''A''"
    by auto
  have a: "t \<in> set (scenarioStore 1 2 3) \<and> task_orchestrationId t = ''orch-1''
          \<and> task_status t = NOT_STARTED"
    using getNextTask_selection[of "''orch-1''" "scenarioStore 1 2 3" t 1 2 3 "[]" 4 "[]"] t(1) ne
    by blast
  have n: "getNextTask [] ''orch-1'' = None"
    using getNextTask_selection[of "''orch-1''" "[]" undefined 1 2 3 "[]" 4 "[]"] ne by simp
  have a1: "map_option task_name (getNextTask (rev (scenarioStore 1 2 3)) ''orch-1'') = Some ''A''"
    using getNextTask_selection[of "''orch-1''" "[]" undefined 1 2 3 "rev (scenarioStore 1 2 3)" 4 "[]"] r0
    by simp
  have s1: "map_sum id allSatisfied (checkDependencies (rev (scenarioStoreDone 1 2 3 4)) ''task-b'') = Inr True"
    and s2: "map_option task_name (getNextTask (rev (scenarioStoreDone 1 2 3 4)) ''orch-1'') = Some ''C''"
    using getNextTask_selection[of "''orch-1''" "[]" undefined 1 2 3 "[]" 4 "rev (scenarioStoreDone 1 2 3 4)"] r1
    by simp_all
  have s3: "map_option task_name (getNextTask (scenarioStoreDone 1 3 2 4) ''orch-1'') = Some ''B''"
    using getNextTask_selection[of "''orch-1''" "[]" undefined 1 3 2 "[]" 4 "scenarioStoreDone 1 3 2 4"] f2
    by simp
  have e1: "map_option task_name (find (\<lambda>t. task_status t = NOT_STARTED) (scenarioStoreDone 1 2 2 4)) = Some ''B''"
    and e2: "map_option task_name (find (\<lambda>t. task_status t = NOT_STARTED) (rev (scenarioStoreDone 1 2 2 4))) = Some ''C''"
    by code_simp+
  have s4: "map_option task_name (getNextTask (scenarioStoreDone 1 2 2 4) ''orch-1'') = Some ''B''"
    using getNextTask_selection[of "''orch-1''" "[]" undefined 1 2 2 "[]" 4 "scenarioStoreDone 1 2 2 4"] f3 e1
    by simp
  have s5: "map_option task_name (getNextTask (rev (scenarioStoreDone 1 2 2 4)) ''orch-1'') = Some ''C''"
    using getNextTask_selection[of "''orch-1''" "[]" undefined 1 2 2 "[]" 4 "rev (scenarioStoreDone 1 2 2 4)"] r3 e2
    by simp
  show ?thesis using ne t a n r0 a1 r1 s1 s2 f2 s3 f3 s4 r3 s5 by blast
qed

text \<open>
  The claim as written fails on its last part: with A, B, C created one millisecond
  apart, after A is completed \<open>getNextTask\<close> returns C, not B, whether the directory
  lists the files in the order of their creation or in the reverse order. And for the
  empty orchestration id the query does not filter: no task of the scenario carries the
  empty id, and \<open>getNextTask\<close> returns task A of \<open>orch-1\<close>.
\<close>

theorem getNextTask_returns_C_counterexample:
  "map (\<lambda>t. (task_name t, task_status t, map dep_taskId (task_dependencies t), task_priority t, task_createdAt t))
       (scenarioStoreDone 1 2 3 4)
     = [(''A'', COMPLETED, [], MEDIUM, 1), (''B'', NOT_STARTED, [''task-a''], MEDIUM, 2),
        (''C'', NOT_STARTED, [''task-b''], MEDIUM, 3)]
   \<and> map_option task_name (getNextTask (scenarioStore 1 2 3) ''orch-1'') = Some ''A''
   \<and> map_sum id allSatisfied (checkDependencies (scenarioStoreDone 1 2 3 4) ''task-b'') = Inr True
   \<and> map_option task_name (getNextTask (scenarioStoreDone 1 2 3 4) ''orch-1'') = Some ''C''
   \<and> map_option task_name (getNextTask (rev (scenarioStoreDone 1 2 3 4)) ''orch-1'') = Some ''C''
   \<and> getNextTask (scenarioStoreDone 1 2 3 4) ''orch-1'' \<noteq> loadTask (scenarioStoreDone 1 2 3 4) ''task-b''
   \<and> filter (\<lambda>t. task_orchestrationId t = '''') (scenarioStore 1 2 3) = []
   \<and> map_option (\<lambda>t. (task_name t, task_orchestrationId t)) (getNextTask (scenarioStore 1 2 3) '''')
        = Some (''A'', ''orch-1'')"
  by code_simp

subsection \<open>C4: recovery of an unparseable file\<close>

lemma rs_files_cleanupOldBackups [simp]: "rs_files (cleanupOldBackups st) = rs_files st"
  by (simp add: cleanupOldBackups_def Let_def)





subsection \<open>C5: validateTaskDependencies\<close>

lemma find_task_distinct:
  assumes "distinct (map task_id tasks)"
  shows "find (\<lambda>t. task_id t = u) tasks = Some t \<longleftrightarrow> t \<in> set tasks \<and> task_id t = u"
  using assms
proof (induction tasks)
  case Nil
  then show ?case by simp
next
  case (Cons a tasks)
  then show ?case by (auto simp: image_iff)
qed

lemma find_task_exists:
  "u \<in> task_id ` set tasks \<Longrightarrow> \<exists>t. find (\<lambda>t. task_id t = u) tasks = Some t"
  by (induction tasks) auto

text \<open>Enough fuel: one unit per task not yet visited, and one more.\<close>

lemma hasCycle_fuel_aux:
  "(\<forall>u path st. card (task_id ` set tasks - visited st) < n \<longrightarrow> u \<in> task_id ` set tasks \<longrightarrow>
        (\<exists>b st'. hasCycle n tasks u path st = Some (b, st') \<and> visited st \<subseteq> visited st'))"
proof (induction n)
  case 0
  then show ?case by simp
next
  case (Suc n)
  let ?V = "task_id ` set tasks"
  have loop: "\<exists>b st'. dependenciesLoop n tasks u path ds st = Some (b, st') \<and> visited st \<subseteq> visited st'"
    if "card (?V - visited st) < n" for u path ds and st :: DfsState
    using that
  proof (induction ds arbitrary: st)
    case Nil
    then show ?case by auto
  next
    case (Cons d ds)
    show ?case
    proof (cases "dep_taskId d \<in> ?V")
      case False
      then show ?thesis using Cons by simp
    next
      case True
      with Suc.IH Cons.prems obtain b st1 where
        h: "hasCycle n tasks (dep_taskId d) (path @ [u]) st = Some (b, st1)" "visited st \<subseteq> visited st1"
        by blast
      show ?thesis
      proof (cases b)
        case True
        then show ?thesis using h \<open>dep_taskId d \<in> ?V\<close> by auto
      next
        case False
        have "?V - visited st1 \<subseteq> ?V - visited st" using h(2) by blast
        then have "card (?V - visited st1) \<le> card (?V - visited st)"
          by (intro card_mono) auto
        then have "card (?V - visited st1) < n" using Cons.prems by simp
        from Cons.IH[OF this] obtain b' st' where
          "dependenciesLoop n tasks u path ds st1 = Some (b', st')" "visited st1 \<subseteq> visited st'"
          by blast
        then show ?thesis using h False \<open>dep_taskId d \<in> ?V\<close> by auto
      qed
    qed
  qed
  show ?case
  proof (intro allI impI)
    fix u path and st :: DfsState
    assume c: "card (?V - visited st) < Suc n" and u: "u \<in> ?V"
    show "\<exists>b st'. hasCycle (Suc n) tasks u path st = Some (b, st') \<and> visited st \<subseteq> visited st'"
    proof (cases "u \<in> recursionStack st \<or> u \<in> visited st")
      case True
      then show ?thesis by auto
    next
      case False
      let ?st1 = "st \<lparr> visited := insert u (visited st), recursionStack := insert u (recursionStack st) \<rparr>"
      from find_task_exists[OF u] obtain t where t: "find (\<lambda>t. task_id t = u) tasks = Some t" by blast
      have eq: "?V - visited ?st1 = (?V - visited st) - {u}" by auto
      have mem: "u \<in> ?V - visited st" using u False by simp
      have fin: "finite (?V - visited st)" by simp
      have "card ((?V - visited st) - {u}) < card (?V - visited st)"
        using fin mem by (rule card_Diff1_less)
      then have "card (?V - visited ?st1) < card (?V - visited st)"
        unfolding eq .
      then have "card (?V - visited ?st1) < n" using c by simp
      from loop[OF this, of u path "task_dependencies t"] obtain b st2 where
        l: "dependenciesLoop n tasks u path (task_dependencies t) ?st1 = Some (b, st2)"
          "visited ?st1 \<subseteq> visited st2" by blast
      show ?thesis using False t l by (cases b) auto
    qed
  qed
qed

lemma hasCycle_fuel:
  assumes "card (task_id ` set tasks - visited st) < n" "u \<in> task_id ` set tasks"
  shows "\<exists>b st'. hasCycle n tasks u path st = Some (b, st') \<and> visited st \<subseteq> visited st'"
  using hasCycle_fuel_aux assms by blast

lemma closed_underD: "closed_under E B \<Longrightarrow> u \<in> B \<Longrightarrow> (u, v) \<in> E \<Longrightarrow> v \<in> B"
  unfolding closed_under_def by blast

lemma closed_under_rtrancl:
  assumes "closed_under E B" "(u, w) \<in> E\<^sup>*" "u \<in> B"
  shows "w \<in> B"
  using assms(2,3)
proof (induction rule: rtrancl_induct)
  case base
  then show ?case .
next
  case (step y z)
  then show ?case using closed_underD[OF assms(1)] by blast
qed

lemma closed_under_insert:
  assumes "closed_under E B" "\<And>v. (u, v) \<in> E \<Longrightarrow> v \<in> B"
  shows "closed_under E (insert u B)"
  using assms unfolding closed_under_def by blast

lemma cycle_free_insert:
  assumes "cycle_free E B" "(u, u) \<notin> E\<^sup>+"
  shows "cycle_free E (insert u B)"
  using assms unfolding cycle_free_def by blast

lemma dependsOn_edge:
  "t \<in> set tasks \<Longrightarrow> d \<in> set (task_dependencies t) \<Longrightarrow> dep_taskId d \<in> task_id ` set tasks
     \<Longrightarrow> (task_id t, dep_taskId d) \<in> dependsOn tasks"
  unfolding dependsOn_def by blast

lemma dependsOn_successor:
  assumes "distinct (map task_id tasks)" "t \<in> set tasks" "(task_id t, v) \<in> dependsOn tasks"
  shows "\<exists>d \<in> set (task_dependencies t). dep_taskId d = v \<and> v \<in> task_id ` set tasks"
proof -
  from assms(3) obtain t' d where td: "t' \<in> set tasks" "task_id t' = task_id t"
    "d \<in> set (task_dependencies t')" "dep_taskId d = v" "v \<in> task_id ` set tasks"
    by (auto simp: dependsOn_def)
  have "inj_on task_id (set tasks)" using assms(1) by (simp add: distinct_map)
  then have "t' = t" using assms(2) td(1,2) by (simp add: inj_on_def)
  then show ?thesis using td by blast
qed

lemma dependsOn_domain: "(u, v) \<in> (dependsOn tasks)\<^sup>+ \<Longrightarrow> u \<in> task_id ` set tasks"
proof (induction rule: trancl_induct)
  case (base y)
  then show ?case unfolding dependsOn_def by blast
next
  case (step y z)
  then show ?case by blast
qed

lemma find_task_Some:
  "find (\<lambda>t. task_id t = u) tasks = Some t \<Longrightarrow> t \<in> set tasks \<and> task_id t = u"
  by (induction tasks) (simp_all split: if_splits)

text \<open>The three cases of one call.\<close>

lemma hasCycle_on_stack:
  "u \<in> recursionStack st \<Longrightarrow>
     hasCycle (Suc n) tasks u path st
       = Some (True, st \<lparr> cycles := cycles st @ [slice path (indexOf path u) @ [u]] \<rparr>)"
  by simp

lemma hasCycle_visited:
  "u \<notin> recursionStack st \<Longrightarrow> u \<in> visited st \<Longrightarrow> hasCycle (Suc n) tasks u path st = Some (False, st)"
  by simp

lemma hasCycle_new:
  assumes "u \<notin> recursionStack st" "u \<notin> visited st" "find (\<lambda>t. task_id t = u) tasks = Some t"
  shows "hasCycle (Suc n) tasks u path st =
     (case dependenciesLoop n tasks u path (task_dependencies t)
             (st \<lparr> visited := insert u (visited st),
                   recursionStack := insert u (recursionStack st) \<rparr>) of
        None \<Rightarrow> None
      | Some (True, st2) \<Rightarrow> Some (True, st2)
      | Some (False, st2) \<Rightarrow> Some (False, st2 \<lparr> recursionStack := recursionStack st2 - {u} \<rparr>))"
  using assms by (simp add: Let_def)

lemma dependenciesLoop_skip:
  "dep_taskId d \<notin> task_id ` set tasks \<Longrightarrow>
     dependenciesLoop n tasks u path (d # ds) st = dependenciesLoop n tasks u path ds st"
  by simp

lemma dependenciesLoop_step:
  "dep_taskId d \<in> task_id ` set tasks \<Longrightarrow>
     dependenciesLoop n tasks u path (d # ds) st =
       (case hasCycle n tasks (dep_taskId d) (path @ [u]) st of
          None \<Rightarrow> None
        | Some (True, st') \<Rightarrow> Some (True, st')
        | Some (False, st') \<Rightarrow> dependenciesLoop n tasks u path ds st')"
  by simp

lemma dfs_post_True: "dfs_post tasks st True st' \<longleftrightarrow> \<not> acyclic (dependsOn tasks) \<and> cycles st' \<noteq> []"
  by (simp add: dfs_post_def)

lemma dfs_post_False:
  "dfs_post tasks st False st' \<longleftrightarrow>
     dfs_inv tasks st' \<and> cycles st' = cycles st \<and> recursionStack st' = recursionStack st
     \<and> visited st \<subseteq> visited st'"
  by (simp add: dfs_post_def)

lemma dfs_post_trans:
  assumes "dfs_post tasks st False st1" "dfs_post tasks st1 b st'"
  shows "dfs_post tasks st b st'"
proof (cases b)
  case True
  then show ?thesis using assms(2) by (simp add: dfs_post_True)
next
  case False
  have "visited st \<subseteq> visited st1" "visited st1 \<subseteq> visited st'"
    using assms False by (simp_all add: dfs_post_False)
  then have "visited st \<subseteq> visited st'" by (rule subset_trans)
  then show ?thesis using assms False by (simp add: dfs_post_False)
qed

lemma dependenciesLoop_spec:
  assumes IH: "\<And>u path b st' (st :: DfsState). dfs_inv tasks st \<Longrightarrow> u \<in> task_id ` set tasks
           \<Longrightarrow> (\<forall>s \<in> recursionStack st. (s, u) \<in> (dependsOn tasks)\<^sup>+)
           \<Longrightarrow> hasCycle n tasks u path st = Some (b, st')
           \<Longrightarrow> dfs_post tasks st b st' \<and> (\<not> b \<longrightarrow> u \<in> black st')"
    and inv: "dfs_inv tasks st"
    and pre: "\<forall>s \<in> recursionStack st. (s, task_id t) \<in> (dependsOn tasks)\<^sup>*"
    and t: "t \<in> set tasks"
    and sub: "set ds \<subseteq> set (task_dependencies t)"
    and run: "dependenciesLoop n tasks (task_id t) path ds st = Some (b, st')"
  shows "dfs_post tasks st b st'
         \<and> (\<not> b \<longrightarrow> (\<forall>d \<in> set ds. dep_taskId d \<in> task_id ` set tasks \<longrightarrow> dep_taskId d \<in> black st'))"
  using inv pre sub run
proof (induction ds arbitrary: st)
  case Nil
  then have "\<not> b" "st' = st" by simp_all
  then show ?case using Nil.prems(1) by (simp add: dfs_post_False)
next
  case (Cons d ds)
  let ?V = "task_id ` set tasks"
  let ?E = "dependsOn tasks"
  let ?v = "dep_taskId d"
  have sub': "set ds \<subseteq> set (task_dependencies t)" and dmem: "d \<in> set (task_dependencies t)"
    using Cons.prems(3) by simp_all
  show ?case
  proof (cases "?v \<in> ?V")
    case False
    have "dependenciesLoop n tasks (task_id t) path ds st = Some (b, st')"
      using Cons.prems(4) dependenciesLoop_skip[OF False] by simp
    from Cons.IH[OF Cons.prems(1,2) sub' this] show ?thesis using False by simp
  next
    case True
    have eq: "(case hasCycle n tasks ?v (path @ [task_id t]) st of
          None \<Rightarrow> None
        | Some (True, st'') \<Rightarrow> Some (True, st'')
        | Some (False, st'') \<Rightarrow> dependenciesLoop n tasks (task_id t) path ds st'') = Some (b, st')"
      using Cons.prems(4) dependenciesLoop_step[OF True] by simp
    then obtain b1 st1 where h: "hasCycle n tasks ?v (path @ [task_id t]) st = Some (b1, st1)"
      by (cases "hasCycle n tasks ?v (path @ [task_id t]) st") auto
    have edge: "(task_id t, ?v) \<in> ?E" using dependsOn_edge[OF t dmem True] .
    have pre': "\<forall>s \<in> recursionStack st. (s, ?v) \<in> ?E\<^sup>+"
    proof
      fix s assume "s \<in> recursionStack st"
      then have "(s, task_id t) \<in> ?E\<^sup>*" using Cons.prems(2) by blast
      then show "(s, ?v) \<in> ?E\<^sup>+" using edge by (rule rtrancl_into_trancl1)
    qed
    from IH[OF Cons.prems(1) True pre' h]
    have p1: "dfs_post tasks st b1 st1" and v1: "\<not> b1 \<longrightarrow> ?v \<in> black st1" by blast+
    show ?thesis
    proof (cases b1)
      case True
      then have "b" "st' = st1" using eq h by simp_all
      then show ?thesis using p1 True by (simp add: dfs_post_True)
    next
      case False
      then have rest: "dependenciesLoop n tasks (task_id t) path ds st1 = Some (b, st')"
        using eq h by simp
      have p1': "dfs_post tasks st False st1" using p1 False by simp
      then have i1: "dfs_inv tasks st1" and s1: "recursionStack st1 = recursionStack st"
        by (simp_all add: dfs_post_False)
      have pre1: "\<forall>s \<in> recursionStack st1. (s, task_id t) \<in> ?E\<^sup>*"
        using Cons.prems(2) unfolding s1 .
      from Cons.IH[OF i1 pre1 sub' rest]
      have p2: "dfs_post tasks st1 b st'"
        and v2: "\<not> b \<longrightarrow> (\<forall>d \<in> set ds. dep_taskId d \<in> ?V \<longrightarrow> dep_taskId d \<in> black st')"
        by blast+
      have post: "dfs_post tasks st b st'" using dfs_post_trans[OF p1' p2] .
      have "?v \<in> black st'" if "\<not> b"
      proof -
        have "dfs_post tasks st1 False st'" using p2 that by simp
        then have "recursionStack st' = recursionStack st1" "visited st1 \<subseteq> visited st'"
          by (simp_all add: dfs_post_False)
        moreover have "?v \<in> visited st1" "?v \<notin> recursionStack st1"
          using v1 False by (simp_all add: black_def)
        ultimately show ?thesis unfolding black_def by blast
      qed
      then show ?thesis using post v2 by simp
    qed
  qed
qed

lemma hasCycle_spec:
  assumes dist: "distinct (map task_id tasks)"
  shows "dfs_inv tasks st \<Longrightarrow> u \<in> task_id ` set tasks
           \<Longrightarrow> (\<forall>s \<in> recursionStack st. (s, u) \<in> (dependsOn tasks)\<^sup>+)
           \<Longrightarrow> hasCycle n tasks u path st = Some (b, st')
           \<Longrightarrow> dfs_post tasks st b st' \<and> (\<not> b \<longrightarrow> u \<in> black st')"
proof (induction n arbitrary: u path b st' st)
  case 0
  then show ?case by simp
next
  case (Suc n)
  let ?V = "task_id ` set tasks"
  let ?E = "dependsOn tasks"
  note inv = Suc.prems(1) and u = Suc.prems(2) and pre = Suc.prems(3) and run = Suc.prems(4)
  show ?case
  proof (cases "u \<in> recursionStack st")
    case True
    then have "(u, u) \<in> ?E\<^sup>+" using pre by blast
    then have cyc: "\<not> acyclic ?E" unfolding acyclic_def by blast
    have "b" "cycles st' \<noteq> []" using run hasCycle_on_stack[OF True, of n tasks path] by auto
    then show ?thesis using cyc by (simp add: dfs_post_True)
  next
    case notstack: False
    show ?thesis
    proof (cases "u \<in> visited st")
      case True
      then have "\<not> b" "st' = st" using run hasCycle_visited[OF notstack True, of n tasks path] by simp_all
      moreover have "u \<in> black st" using True notstack by (simp add: black_def)
      ultimately show ?thesis using inv by (simp add: dfs_post_False)
    next
      case False
      let ?st1 = "st \<lparr> visited := insert u (visited st),
                        recursionStack := insert u (recursionStack st) \<rparr>"
      from find_task_exists[OF u] obtain t where ft: "find (\<lambda>t. task_id t = u) tasks = Some t"
        by blast
      then have t: "t \<in> set tasks" "task_id t = u" using find_task_Some by blast+
      have eq: "(case dependenciesLoop n tasks u path (task_dependencies t) ?st1 of
                  None \<Rightarrow> None
                | Some (True, st2) \<Rightarrow> Some (True, st2)
                | Some (False, st2) \<Rightarrow> Some (False, st2 \<lparr> recursionStack := recursionStack st2 - {u} \<rparr>))
                = Some (b, st')"
        using run hasCycle_new[OF notstack False ft, of n path] by simp
      then obtain b2 st2 where
        l: "dependenciesLoop n tasks u path (task_dependencies t) ?st1 = Some (b2, st2)"
        by (cases "dependenciesLoop n tasks u path (task_dependencies t) ?st1") auto
      have B1: "black ?st1 = black st" using False by (auto simp: black_def)
      have sv: "recursionStack st \<subseteq> visited st" using inv by (simp add: dfs_inv_def)
      have inv1: "dfs_inv tasks ?st1"
        unfolding dfs_inv_def B1 using inv sv by (auto simp: dfs_inv_def)
      have pre1: "\<forall>s \<in> recursionStack ?st1. (s, task_id t) \<in> ?E\<^sup>*"
      proof
        fix s assume "s \<in> recursionStack ?st1"
        then have "s = u \<or> s \<in> recursionStack st" by simp
        then show "(s, task_id t) \<in> ?E\<^sup>*"
        proof
          assume "s = u" then show ?thesis using t(2) by simp
        next
          assume "s \<in> recursionStack st"
          then have "(s, u) \<in> ?E\<^sup>+" using pre by blast
          then show ?thesis unfolding t(2) by (rule trancl_into_rtrancl)
        qed
      qed
      have l': "dependenciesLoop n tasks (task_id t) path (task_dependencies t) ?st1 = Some (b2, st2)"
        using l t(2) by simp
      have both: "dfs_post tasks ?st1 b2 st2
          \<and> (\<not> b2 \<longrightarrow> (\<forall>d \<in> set (task_dependencies t). dep_taskId d \<in> ?V
                    \<longrightarrow> dep_taskId d \<in> black st2))"
      proof (rule dependenciesLoop_spec[OF _ inv1 pre1 t(1) subset_refl l'])
        fix w p c s' and s :: DfsState
        assume "dfs_inv tasks s" "w \<in> task_id ` set tasks"
          "\<forall>x \<in> recursionStack s. (x, w) \<in> (dependsOn tasks)\<^sup>+"
          "hasCycle n tasks w p s = Some (c, s')"
        then show "dfs_post tasks s c s' \<and> (\<not> c \<longrightarrow> w \<in> black s')" by (rule Suc.IH)
      qed
      then have p2: "dfs_post tasks ?st1 b2 st2"
        and v2: "\<not> b2 \<longrightarrow> (\<forall>d \<in> set (task_dependencies t). dep_taskId d \<in> ?V
                    \<longrightarrow> dep_taskId d \<in> black st2)"
        by blast+
      show ?thesis
      proof (cases b2)
        case True
        then have "b" "st' = st2" using eq l by simp_all
        then show ?thesis using p2 True by (simp add: dfs_post_True)
      next
        case b2: False
        then have res: "\<not> b" "st' = st2 \<lparr> recursionStack := recursionStack st2 - {u} \<rparr>"
          using eq l by simp_all
        have "dfs_post tasks ?st1 False st2" using p2 b2 by simp
        then have i2: "dfs_inv tasks st2" and c2: "cycles st2 = cycles st"
          and s2: "recursionStack st2 = insert u (recursionStack st)"
          and vis2: "insert u (visited st) \<subseteq> visited st2"
          by (simp_all add: dfs_post_False)
        have closed2: "closed_under ?E (black st2)" and acyc2: "cycle_free ?E (black st2)"
          using i2 by (simp_all add: dfs_inv_def)
        have stack': "recursionStack st' = recursionStack st" using res(2) s2 notstack by simp
        have vis': "visited st' = visited st2" using res(2) by simp
        have cyc': "cycles st' = cycles st" using res(2) c2 by simp
        have B': "black st' = insert u (black st2)"
          unfolding black_def stack' vis' s2 using vis2 notstack by blast
        have succ_u: "v \<in> black st2" if "(u, v) \<in> ?E" for v
        proof -
          from that have "(task_id t, v) \<in> ?E" using t(2) by simp
          from dependsOn_successor[OF dist t(1) this]
          obtain d where "d \<in> set (task_dependencies t)" "dep_taskId d = v" "v \<in> ?V" by blast
          then show ?thesis using v2 b2 by blast
        qed
        have unotB2: "u \<notin> black st2" unfolding black_def s2 by simp
        have no_loop_u: "(u, u) \<notin> ?E\<^sup>+"
        proof
          assume "(u, u) \<in> ?E\<^sup>+"
          then obtain v where v: "(u, v) \<in> ?E" "(v, u) \<in> ?E\<^sup>*" by (meson tranclD)
          have "v \<in> black st2" using succ_u[OF v(1)] .
          from closed_under_rtrancl[OF closed2 v(2) this] show False using unotB2 by simp
        qed
        have "recursionStack st' \<subseteq> visited st'"
          unfolding stack' vis' using sv vis2 by blast
        moreover have "closed_under ?E (black st')"
          unfolding B' using closed2 succ_u by (rule closed_under_insert)
        moreover have "cycle_free ?E (black st')"
          unfolding B' using acyc2 no_loop_u by (rule cycle_free_insert)
        ultimately have inv': "dfs_inv tasks st'" by (simp add: dfs_inv_def)
        have "visited st \<subseteq> visited st'" unfolding vis' using vis2 by blast
        then have "dfs_post tasks st False st'"
          using inv' cyc' stack' by (simp add: dfs_post_False)
        moreover have "u \<in> black st'" unfolding B' by simp
        ultimately show ?thesis using res(1) by simp
      qed
    qed
  qed
qed

lemma hasCycle_cycles_mono:
  "hasCycle n tasks u path st = Some (b, st') \<Longrightarrow> length (cycles st) \<le> length (cycles st')"
proof (induction n arbitrary: u path st b st')
  case 0
  then show ?case by simp
next
  case (Suc n)
  have loop: "length (cycles s) \<le> length (cycles s')"
    if "dependenciesLoop n tasks w p ds s = Some (c, s')" for w p ds c s' and s :: DfsState
    using that
  proof (induction ds arbitrary: s)
    case Nil
    then show ?case by simp
  next
    case (Cons d ds)
    show ?case
    proof (cases "dep_taskId d \<in> task_id ` set tasks")
      case False
      then show ?thesis using Cons by simp
    next
      case True
      have eq: "(case hasCycle n tasks (dep_taskId d) (p @ [w]) s of
          None \<Rightarrow> None
        | Some (True, st'') \<Rightarrow> Some (True, st'')
        | Some (False, st'') \<Rightarrow> dependenciesLoop n tasks w p ds st'') = Some (c, s')"
        using Cons.prems dependenciesLoop_step[OF True] by simp
      then obtain b1 s1 where h: "hasCycle n tasks (dep_taskId d) (p @ [w]) s = Some (b1, s1)"
        by (cases "hasCycle n tasks (dep_taskId d) (p @ [w]) s") auto
      have m1: "length (cycles s) \<le> length (cycles s1)" using Suc.IH[OF h] .
      show ?thesis
      proof (cases b1)
        case True
        then have "s' = s1" using eq h by simp
        then show ?thesis using m1 by simp
      next
        case False
        then have "dependenciesLoop n tasks w p ds s1 = Some (c, s')" using eq h by simp
        from Cons.IH[OF this] m1 show ?thesis by simp
      qed
    qed
  qed
  show ?case
  proof (cases "u \<in> recursionStack st")
    case True
    then show ?thesis using Suc.prems hasCycle_on_stack[OF True, of n tasks path] by auto
  next
    case notstack: False
    show ?thesis
    proof (cases "u \<in> visited st")
      case True
      then show ?thesis using Suc.prems hasCycle_visited[OF notstack True, of n tasks path] by simp
    next
      case False
      let ?st1 = "st \<lparr> visited := insert u (visited st),
                        recursionStack := insert u (recursionStack st) \<rparr>"
      show ?thesis
      proof (cases "find (\<lambda>t. task_id t = u) tasks")
        case None
        then show ?thesis using Suc.prems notstack False by (auto simp: Let_def)
      next
        case (Some t)
        have eq: "(case dependenciesLoop n tasks u path (task_dependencies t) ?st1 of
                  None \<Rightarrow> None
                | Some (True, st2) \<Rightarrow> Some (True, st2)
                | Some (False, st2) \<Rightarrow> Some (False, st2 \<lparr> recursionStack := recursionStack st2 - {u} \<rparr>))
                = Some (b, st')"
          using Suc.prems hasCycle_new[OF notstack False Some, of n path] by simp
        then obtain b2 st2 where
          l: "dependenciesLoop n tasks u path (task_dependencies t) ?st1 = Some (b2, st2)"
          by (cases "dependenciesLoop n tasks u path (task_dependencies t) ?st1") auto
        have "length (cycles ?st1) \<le> length (cycles st2)" using loop[OF l] .
        moreover have "cycles st' = cycles st2" using eq l by (cases b2) auto
        ultimately show ?thesis by simp
      qed
    qed
  qed
qed

lemma tasksLoop_total:
  assumes "card (task_id ` set tasks) < fuel" "set ts \<subseteq> set tasks"
  shows "\<exists>r. tasksLoop fuel tasks ts acc = Some r"
  using assms(2)
proof (induction ts arbitrary: acc)
  case Nil
  then show ?case by simp
next
  case (Cons t ts)
  obtain valid st where acc: "acc = (valid, st)" by (cases acc)
  show ?case
  proof (cases "task_id t \<in> visited st")
    case True
    then show ?thesis using Cons acc by simp
  next
    case False
    have "card (task_id ` set tasks - visited st) \<le> card (task_id ` set tasks)"
      by (intro card_mono) auto
    then have c: "card (task_id ` set tasks - visited st) < fuel" using assms(1) by simp
    have "task_id t \<in> task_id ` set tasks" using Cons.prems by auto
    from hasCycle_fuel[OF c this, of "[]"] obtain b st' where
      "hasCycle fuel tasks (task_id t) [] st = Some (b, st')" by blast
    then show ?thesis using Cons False acc by simp
  qed
qed

lemma tasksLoop_False:
  "tasksLoop fuel tasks ts (False, st) = Some (valid', st') \<Longrightarrow> cycles st \<noteq> []
     \<Longrightarrow> \<not> valid' \<and> cycles st' \<noteq> []"
proof (induction ts arbitrary: st)
  case Nil
  then show ?case by simp
next
  case (Cons t ts)
  show ?case
  proof (cases "task_id t \<in> visited st")
    case True
    then have "tasksLoop fuel tasks ts (False, st) = Some (valid', st')"
      using Cons.prems(1) by simp
    from Cons.IH[OF this Cons.prems(2)] show ?thesis .
  next
    case False
    then obtain b st1 where h: "hasCycle fuel tasks (task_id t) [] st = Some (b, st1)"
      using Cons.prems(1) by (cases "hasCycle fuel tasks (task_id t) [] st") auto
    then have r: "tasksLoop fuel tasks ts (False, st1) = Some (valid', st')"
      using Cons.prems(1) False by simp
    have "cycles st1 \<noteq> []" using hasCycle_cycles_mono[OF h] Cons.prems(2) by auto
    from Cons.IH[OF r this] show ?thesis .
  qed
qed

lemma tasksLoop_spec:
  assumes dist: "distinct (map task_id tasks)"
  shows "dfs_inv tasks st \<Longrightarrow> recursionStack st = {} \<Longrightarrow> cycles st = [] \<Longrightarrow> set ts \<subseteq> set tasks
     \<Longrightarrow> tasksLoop fuel tasks ts (valid, st) = Some (valid', st')
     \<Longrightarrow> (if cycles st' = []
          then dfs_inv tasks st' \<and> recursionStack st' = {}
               \<and> visited st \<union> task_id ` set ts \<subseteq> visited st' \<and> valid' = valid
          else \<not> acyclic (dependsOn tasks) \<and> \<not> valid')"
proof (induction ts arbitrary: st)
  case Nil
  then show ?case by simp
next
  case (Cons t ts)
  have sub: "set ts \<subseteq> set tasks" and tin: "task_id t \<in> task_id ` set tasks"
    using Cons.prems(4) by auto
  show ?case
  proof (cases "task_id t \<in> visited st")
    case True
    then have r: "tasksLoop fuel tasks ts (valid, st) = Some (valid', st')"
      using Cons.prems(5) by simp
    from Cons.IH[OF Cons.prems(1,2,3) sub r] True show ?thesis by (auto split: if_splits)
  next
    case False
    then obtain b st1 where h: "hasCycle fuel tasks (task_id t) [] st = Some (b, st1)"
      using Cons.prems(5) by (cases "hasCycle fuel tasks (task_id t) [] st") auto
    then have r: "tasksLoop fuel tasks ts (if b then False else valid, st1) = Some (valid', st')"
      using Cons.prems(5) False by simp
    have pre: "\<forall>s \<in> recursionStack st. (s, task_id t) \<in> (dependsOn tasks)\<^sup>+"
      using Cons.prems(2) by simp
    from hasCycle_spec[OF dist Cons.prems(1) tin pre h]
    have p: "dfs_post tasks st b st1" and v: "\<not> b \<longrightarrow> task_id t \<in> black st1" by blast+
    show ?thesis
    proof (cases b)
      case True
      then have cyc: "\<not> acyclic (dependsOn tasks)" "cycles st1 \<noteq> []"
        using p by (simp_all add: dfs_post_True)
      have "tasksLoop fuel tasks ts (False, st1) = Some (valid', st')" using r True by simp
      from tasksLoop_False[OF this cyc(2)] cyc(1) show ?thesis by simp
    next
      case False
      then have p': "dfs_post tasks st False st1" using p by simp
      then have i1: "dfs_inv tasks st1" and c1: "cycles st1 = []" and s1: "recursionStack st1 = {}"
        and vis1: "visited st \<subseteq> visited st1"
        using Cons.prems(2,3) by (simp_all add: dfs_post_False)
      have t1: "task_id t \<in> visited st1" using v False by (simp add: black_def)
      have r': "tasksLoop fuel tasks ts (valid, st1) = Some (valid', st')" using r False by simp
      from Cons.IH[OF i1 s1 c1 sub r'] vis1 t1 show ?thesis by (auto split: if_splits)
    qed
  qed
qed

lemma distinct_map_insort_cmp:
  "distinct (map f (insort_cmp cmp x xs)) \<longleftrightarrow> f x \<notin> f ` set xs \<and> distinct (map f xs)"
  by (induction xs) (auto simp: set_insort_cmp)

lemma distinct_map_sort_cmp: "distinct (map f (sort_cmp cmp xs)) \<longleftrightarrow> distinct (map f xs)"
proof (induction xs)
  case Nil
  then show ?case by (simp add: sort_cmp_def)
next
  case (Cons x xs)
  have "sort_cmp cmp (x # xs) = insort_cmp cmp x (sort_cmp cmp xs)" by (simp add: sort_cmp_def)
  then show ?case using Cons by (simp add: distinct_map_insort_cmp set_sort_cmp)
qed

lemma distinct_queryTasks:
  "distinct (map task_id store) \<Longrightarrow> distinct (map task_id (queryTasks store q))"
  by (simp add: queryTasks_def distinct_map_sort_cmp distinct_map_filter)

lemma set_invalidDependenciesOf:
  "set (invalidDependenciesOf tasks) =
     {task_id t @ '' -> '' @ dep_taskId d | t d.
        t \<in> set tasks \<and> d \<in> set (task_dependencies t) \<and> dep_taskId d \<notin> task_id ` set tasks}"
  unfolding invalidDependenciesOf_def by auto

lemma dfs_all_black_acyclic:
  assumes "dfs_inv tasks st" "recursionStack st = {}" "task_id ` set tasks \<subseteq> visited st"
  shows "acyclic (dependsOn tasks)"
proof (rule acyclicI, intro allI notI)
  fix x assume c: "(x, x) \<in> (dependsOn tasks)\<^sup>+"
  then have "x \<in> task_id ` set tasks" by (rule dependsOn_domain)
  then have "x \<in> black st" using assms(2,3) by (auto simp: black_def)
  moreover have "cycle_free (dependsOn tasks) (black st)" using assms(1) by (simp add: dfs_inv_def)
  ultimately show False using c by (auto simp: cycle_free_def)
qed

lemma dfs_inv_initial: "dfs_inv tasks \<lparr> visited = {}, recursionStack = {}, cycles = [] \<rparr>"
  by (simp add: dfs_inv_def black_def closed_under_def cycle_free_def)

lemma validate_tasks:
  assumes dist: "distinct (map task_id tasks)"
  shows "\<exists>valid' st'.
     tasksLoop (Suc (length tasks)) tasks tasks
        (valid, \<lparr> visited = {}, recursionStack = {}, cycles = [] \<rparr>) = Some (valid', st')
     \<and> (cycles st' \<noteq> [] \<longleftrightarrow> \<not> acyclic (dependsOn tasks))
     \<and> (valid' \<longleftrightarrow> valid \<and> cycles st' = [])"
proof -
  let ?st0 = "\<lparr> visited = {}, recursionStack = {}, cycles = [] \<rparr>"
  have "card (task_id ` set tasks) \<le> length tasks"
    using card_image_le[of "set tasks" task_id] card_length[of tasks] by simp
  then have "card (task_id ` set tasks) < Suc (length tasks)" by simp
  from tasksLoop_total[OF this subset_refl, of "(valid, ?st0)"]
  obtain valid' st' where
    r: "tasksLoop (Suc (length tasks)) tasks tasks (valid, ?st0) = Some (valid', st')"
    by (cases "the (tasksLoop (Suc (length tasks)) tasks tasks (valid, ?st0))") auto
  have spec: "if cycles st' = []
          then dfs_inv tasks st' \<and> recursionStack st' = {}
               \<and> visited ?st0 \<union> task_id ` set tasks \<subseteq> visited st' \<and> valid' = valid
          else \<not> acyclic (dependsOn tasks) \<and> \<not> valid'"
    by (rule tasksLoop_spec[OF dist dfs_inv_initial _ _ subset_refl r]) simp_all
  show ?thesis
  proof (cases "cycles st' = []")
    case True
    then have "dfs_inv tasks st'" "recursionStack st' = {}" "task_id ` set tasks \<subseteq> visited st'"
      and v: "valid' = valid"
      using spec by simp_all
    then have "acyclic (dependsOn tasks)" using dfs_all_black_acyclic by blast
    then show ?thesis using r True v by simp
  next
    case False
    then show ?thesis using r spec by auto
  qed
qed

text \<open>
  The result of \<open>validateTaskDependencies\<close> in terms of the tasks its query returns.
\<close>

lemma validateTaskDependencies_query:
  assumes "distinct (map task_id store)"
    and "tasks = queryTasks store \<lparr> q_orchestrationId = Some orchestrationId, q_status = None \<rparr>"
  shows "\<exists>r. validateTaskDependencies store orchestrationId = Some r
     \<and> (dv_cycles r \<noteq> [] \<longleftrightarrow> (\<exists>x. (x, x) \<in> (dependsOn tasks)\<^sup>+))
     \<and> set (dv_invalidDependencies r) =
         {task_id t @ '' -> '' @ dep_taskId d | t d.
            t \<in> set tasks \<and> d \<in> set (task_dependencies t) \<and> dep_taskId d \<notin> task_id ` set tasks}
     \<and> (dv_isValid r \<longleftrightarrow> dv_cycles r = [] \<and> dv_invalidDependencies r = [])"
proof -
  have dist: "distinct (map task_id tasks)" using assms by (simp add: distinct_queryTasks)
  from validate_tasks[OF dist, of "invalidDependenciesOf tasks = []"]
  obtain valid' st' where
    r: "tasksLoop (Suc (length tasks)) tasks tasks
          (invalidDependenciesOf tasks = [], \<lparr> visited = {}, recursionStack = {}, cycles = [] \<rparr>)
        = Some (valid', st')"
    and c: "cycles st' \<noteq> [] \<longleftrightarrow> \<not> acyclic (dependsOn tasks)"
    and v: "valid' \<longleftrightarrow> invalidDependenciesOf tasks = [] \<and> cycles st' = []"
    by blast
  have "validateTaskDependencies store orchestrationId
      = Some \<lparr> dv_isValid = valid', dv_cycles = cycles st', dv_orphanedTasks = [],
               dv_invalidDependencies = invalidDependenciesOf tasks \<rparr>"
    using r assms(2) by (simp add: validateTaskDependencies_def Let_def)
  then show ?thesis using c v set_invalidDependenciesOf[of tasks] by (auto simp: acyclic_def)
qed

lemma queryTasks_orchestration:
  "set (queryTasks store \<lparr> q_orchestrationId = Some oid, q_status = None \<rparr>)
     = set (if oid = [] then store else orchestrationTasks store oid)"
  by (auto simp: queryTasks_set taskMatchesQuery_def orchestrationTasks_def)

lemma dependsOn_set: "set ts = set ts' \<Longrightarrow> dependsOn ts = dependsOn ts'"
  by (simp add: dependsOn_def)

text \<open>
  C5. Let the store hold one task per id. For a non-empty orchestration id the tasks
  validated are the tasks of the store that carry this id; for the empty id the query
  does not filter, and they are all tasks of the store. On these tasks
  \<open>validateTaskDependencies\<close> returns, and its result lists at least one cycle exactly
  when the dependency edges between them contain a directed cycle; its invalid
  dependencies are exactly the edges \<open>t -> d\<close> from one of them to an id none of them
  has, whatever the cycle search finds; and \<open>isValid\<close> holds exactly when there is
  neither a cycle nor an invalid dependency.
\<close>

theorem validateTaskDependencies_cycles_and_invalid:
  assumes "distinct (map task_id store)"
    and "tasks = (if orchestrationId = [] then store
                  else orchestrationTasks store orchestrationId)"
  shows "\<exists>r. validateTaskDependencies store orchestrationId = Some r
     \<and> (dv_cycles r \<noteq> [] \<longleftrightarrow> (\<exists>x. (x, x) \<in> (dependsOn tasks)\<^sup>+))
     \<and> set (dv_invalidDependencies r) =
         {task_id t @ '' -> '' @ dep_taskId d | t d.
            t \<in> set tasks \<and> d \<in> set (task_dependencies t) \<and> dep_taskId d \<notin> task_id ` set tasks}
     \<and> (dv_isValid r \<longleftrightarrow> dv_cycles r = [] \<and> dv_invalidDependencies r = [])"
proof -
  let ?q = "queryTasks store \<lparr> q_orchestrationId = Some orchestrationId, q_status = None \<rparr>"
  have s: "set ?q = set tasks" using assms(2) queryTasks_orchestration[of store orchestrationId] by simp
  have d: "dependsOn ?q = dependsOn tasks" using s by (rule dependsOn_set)
  from validateTaskDependencies_query[OF assms(1) refl, of orchestrationId]
  show ?thesis unfolding d s .
qed

theorem validateTaskDependencies_cycles_and_invalid_witness:
  "distinct (map task_id cyclicStore) \<and> distinct (map task_id acyclicStore)
   \<and> orchestrationTasks cyclicStore ''orch-1'' = cyclicStore
   \<and> orchestrationTasks acyclicStore ''orch-1'' = acyclicStore
   \<and> (\<exists>x. (x, x) \<in> (dependsOn cyclicStore)\<^sup>+)
   \<and> \<not> (\<exists>x. (x, x) \<in> (dependsOn acyclicStore)\<^sup>+)
   \<and> map_option (\<lambda>r. (dv_isValid r, dv_cycles r, dv_invalidDependencies r))
         (validateTaskDependencies cyclicStore ''orch-1'')
       = Some (False, [[''b'', ''a'', ''b'']], [''b -> x''])
   \<and> map_option (\<lambda>r. (dv_isValid r, dv_cycles r, dv_invalidDependencies r))
         (validateTaskDependencies acyclicStore ''orch-1'') = Some (True, [], [])"
proof -
  have d1: "distinct (map task_id cyclicStore)" and d2: "distinct (map task_id acyclicStore)"
    by code_simp+
  have o1: "orchestrationTasks cyclicStore ''orch-1'' = cyclicStore"
    and o2: "orchestrationTasks acyclicStore ''orch-1'' = acyclicStore"
    by code_simp+
  have t1: "cyclicStore = (if ''orch-1'' = [] then cyclicStore else orchestrationTasks cyclicStore ''orch-1'')"
    and t2: "acyclicStore = (if ''orch-1'' = [] then acyclicStore else orchestrationTasks acyclicStore ''orch-1'')"
    using o1 o2 by simp_all
  have e1: "map_option (\<lambda>r. (dv_isValid r, dv_cycles r, dv_invalidDependencies r))
         (validateTaskDependencies cyclicStore ''orch-1'')
       = Some (False, [[''b'', ''a'', ''b'']], [''b -> x''])"
    by code_simp
  have e2: "map_option (\<lambda>r. (dv_isValid r, dv_cycles r, dv_invalidDependencies r))
         (validateTaskDependencies acyclicStore ''orch-1'') = Some (True, [], [])"
    by code_simp
  have c1: "\<exists>x. (x, x) \<in> (dependsOn cyclicStore)\<^sup>+"
    using validateTaskDependencies_cycles_and_invalid[OF d1 t1] e1 by auto
  have c2: "\<not> (\<exists>x. (x, x) \<in> (dependsOn acyclicStore)\<^sup>+)"
    using validateTaskDependencies_cycles_and_invalid[OF d2 t2] e2 by auto
  show ?thesis using d1 d2 o1 o2 e1 e2 c1 c2 by blast
qed

lemma dependsOn_single: "dependsOn [orchTask '''' ''a'' [] 1] = {}"
  by (auto simp: dependsOn_def orchTask_def graphTask_def)

text \<open>
  The claim as written fails for the orchestration with the empty id: its only task
  \<open>a\<close> has no dependency, and the call reports the cycle between \<open>x\<close> and \<open>y\<close> of
  \<open>orch-1\<close>.
\<close>

theorem validateTaskDependencies_empty_id_counterexample:
  "distinct (map task_id mixedStore)
   \<and> orchestrationTasks mixedStore '''' = [orchTask '''' ''a'' [] 1]
   \<and> \<not> (\<exists>x. (x, x) \<in> (dependsOn (orchestrationTasks mixedStore ''''))\<^sup>+)
   \<and> map_option (\<lambda>r. (dv_isValid r, dv_cycles r, dv_invalidDependencies r))
         (validateTaskDependencies mixedStore '''')
       = Some (False, [[''y'', ''x'', ''y'']], [])"
proof -
  have o: "orchestrationTasks mixedStore '''' = [orchTask '''' ''a'' [] 1]" by code_simp
  have d: "distinct (map task_id mixedStore)" by code_simp
  have e: "map_option (\<lambda>r. (dv_isValid r, dv_cycles r, dv_invalidDependencies r))
         (validateTaskDependencies mixedStore '''')
       = Some (False, [[''y'', ''x'', ''y'']], [])" by code_simp
  have c: "\<not> (\<exists>x. (x, x) \<in> (dependsOn (orchestrationTasks mixedStore ''''))\<^sup>+)"
    unfolding o dependsOn_single by simp
  show ?thesis using o d e c by blast
qed

subsection \<open>C8: getTaskExecutionOrder\<close>

lemma map_of_Map_set: "map_of (Map_set k v m) = (map_of m)(k \<mapsto> v)"
  by (induction m) (auto simp: fun_eq_iff)

lemma keys_Map_set: "fst ` set (Map_set k v m) = insert k (fst ` set m)"
proof (induction m)
  case Nil
  then show ?case by simp
next
  case (Cons a m)
  obtain k' v' where a: "a = (k', v')" by (cases a)
  show ?case using Cons unfolding a by (cases "k' = k") auto
qed

lemma distinct_Map_set: "distinct (map fst (Map_set k v m)) \<longleftrightarrow> distinct (map fst m)"
proof (induction m)
  case Nil
  then show ?case by simp
next
  case (Cons a m)
  obtain k' v' where a: "a = (k', v')" by (cases a)
  show ?case using Cons keys_Map_set[of k v m] unfolding a by (cases "k' = k") auto
qed

lemma getOrZero_Map_set: "getOrZero (Map_set k v m) j = (if j = k then v else getOrZero m j)"
  by (simp add: getOrZero_def Map_get_def map_of_Map_set)

text \<open>The two maps after the initialisation loop.\<close>

lemma initialize_fold:
  "fold (\<lambda>task (dependencyMap, inDegree).
             (Map_set (task_id task) [] dependencyMap, Map_set (task_id task) (0::int) inDegree))
       ts (dm, deg) = (dm', deg')
   \<Longrightarrow> map_of dm' = (\<lambda>k. if k \<in> task_id ` set ts then Some [] else map_of dm k)
     \<and> map_of deg' = (\<lambda>k. if k \<in> task_id ` set ts then Some 0 else map_of deg k)
     \<and> fst ` set deg' = fst ` set deg \<union> task_id ` set ts
     \<and> (distinct (map fst deg) \<longrightarrow> distinct (map fst deg'))"
proof (induction ts arbitrary: dm deg)
  case Nil
  then show ?case by auto
next
  case (Cons t ts)
  from Cons.IH[of "Map_set (task_id t) [] dm" "Map_set (task_id t) 0 deg"] Cons.prems
  show ?case by (auto simp: map_of_Map_set keys_Map_set distinct_Map_set fun_eq_iff)
qed

lemma initialize_maps:
  assumes "initialize tasks = (dm, deg)"
  shows "map_of dm = (\<lambda>k. if k \<in> task_id ` set tasks then Some [] else None)"
    and "map_of deg = (\<lambda>k. if k \<in> task_id ` set tasks then Some 0 else None)"
    and "fst ` set deg = task_id ` set tasks"
    and "distinct (map fst deg)"
  using initialize_fold[OF assms[unfolded initialize_def]] by auto

text \<open>One task's dependencies added to the graph.\<close>

lemma addDependency_fold:
  assumes "fold (addDependency task) ds (dm, deg) = (dm', deg')"
    and "task_id task \<in> fst ` set deg"
  shows "map_of dm' = (\<lambda>k. map_option
            (\<lambda>l. l @ map (\<lambda>d. task_id task) (filter (\<lambda>d. dep_taskId d = k) ds)) (map_of dm k))
     \<and> (\<forall>j. getOrZero deg' j = getOrZero deg j
            + (if j = task_id task
               then int (length (filter (\<lambda>d. map_of dm (dep_taskId d) \<noteq> None) ds)) else 0))
     \<and> fst ` set deg' = fst ` set deg
     \<and> (distinct (map fst deg) \<longrightarrow> distinct (map fst deg'))"
  using assms
proof (induction ds arbitrary: dm deg)
  case Nil
  then show ?case by (auto simp: fun_eq_iff option.map_ident split: option.splits)
next
  case (Cons d ds)
  show ?case
  proof (cases "map_of dm (dep_taskId d)")
    case None
    then have "fold (addDependency task) ds (dm, deg) = (dm', deg')"
      using Cons.prems(1) by (simp add: Map_get_def)
    from Cons.IH[OF this Cons.prems(2)] None show ?thesis
      by (auto simp: fun_eq_iff)
  next
    case (Some l)
    let ?dm1 = "Map_set (dep_taskId d) (l @ [task_id task]) dm"
    let ?deg1 = "Map_set (task_id task) (getOrZero deg (task_id task) + 1) deg"
    have f: "fold (addDependency task) ds (?dm1, ?deg1) = (dm', deg')"
      using Cons.prems(1) Some by (simp add: Map_get_def)
    have k: "task_id task \<in> fst ` set ?deg1" by (simp add: keys_Map_set)
    have dom: "\<And>x. map_of ?dm1 x \<noteq> None \<longleftrightarrow> map_of dm x \<noteq> None"
      using Some by (auto simp: map_of_Map_set)
    have keys: "fst ` set ?deg1 = fst ` set deg" using Cons.prems(2) by (auto simp: keys_Map_set)
    from Cons.IH[OF f k]
    have 1: "map_of dm' = (\<lambda>k. map_option
            (\<lambda>l. l @ map (\<lambda>d. task_id task) (filter (\<lambda>d. dep_taskId d = k) ds)) (map_of ?dm1 k))"
      and 2: "\<forall>j. getOrZero deg' j = getOrZero ?deg1 j
            + (if j = task_id task
               then int (length (filter (\<lambda>d. map_of ?dm1 (dep_taskId d) \<noteq> None) ds)) else 0)"
      and 3: "fst ` set deg' = fst ` set ?deg1"
      and 4: "distinct (map fst ?deg1) \<longrightarrow> distinct (map fst deg')"
      by blast+
    have a: "map_of dm' = (\<lambda>k. map_option
            (\<lambda>l. l @ map (\<lambda>d. task_id task) (filter (\<lambda>d. dep_taskId d = k) (d # ds))) (map_of dm k))"
      unfolding 1 using Some by (auto simp: fun_eq_iff map_of_Map_set)
    have b: "\<forall>j. getOrZero deg' j = getOrZero deg j
            + (if j = task_id task
               then int (length (filter (\<lambda>d. map_of dm (dep_taskId d) \<noteq> None) (d # ds))) else 0)"
      using 2 Some unfolding dom by (simp add: getOrZero_Map_set)
    show ?thesis using a b 3 4 keys by (simp add: distinct_Map_set)
  qed
qed

lemma buildGraph_fold:
  assumes "fold (\<lambda>task. fold (addDependency task) (task_dependencies task)) ts (dm, deg) = (dm', deg')"
    and "task_id ` set ts \<subseteq> fst ` set deg"
  shows "map_of dm' = (\<lambda>k. map_option (\<lambda>l. l @ dependentsOf ts k) (map_of dm k))
     \<and> (\<forall>j. getOrZero deg' j = getOrZero deg j
            + int (sum_list (map (\<lambda>t. length (filter (\<lambda>d. map_of dm (dep_taskId d) \<noteq> None)
                                             (task_dependencies t)))
                             (filter (\<lambda>t. task_id t = j) ts))))
     \<and> fst ` set deg' = fst ` set deg
     \<and> (distinct (map fst deg) \<longrightarrow> distinct (map fst deg'))"
  using assms
proof (induction ts arbitrary: dm deg)
  case Nil
  then show ?case by (auto simp: dependentsOf_def fun_eq_iff option.map_ident)
next
  case (Cons t ts)
  obtain dm1 deg1 where
    s1: "fold (addDependency t) (task_dependencies t) (dm, deg) = (dm1, deg1)"
    by (cases "fold (addDependency t) (task_dependencies t) (dm, deg)")
  have tk: "task_id t \<in> fst ` set deg" using Cons.prems(2) by simp
  from addDependency_fold[OF s1 tk]
  have a1: "map_of dm1 = (\<lambda>k. map_option
            (\<lambda>l. l @ map (\<lambda>d. task_id t) (filter (\<lambda>d. dep_taskId d = k) (task_dependencies t)))
            (map_of dm k))"
    and a2: "\<And>j. getOrZero deg1 j = getOrZero deg j
            + (if j = task_id t
               then int (length (filter (\<lambda>d. map_of dm (dep_taskId d) \<noteq> None) (task_dependencies t)))
               else 0)"
    and a3: "fst ` set deg1 = fst ` set deg"
    and a4: "distinct (map fst deg) \<longrightarrow> distinct (map fst deg1)"
    by blast+
  have dom: "\<And>x. map_of dm1 x \<noteq> None \<longleftrightarrow> map_of dm x \<noteq> None" unfolding a1 by simp
  have s2: "fold (\<lambda>task. fold (addDependency task) (task_dependencies task)) ts (dm1, deg1) = (dm', deg')"
    using Cons.prems(1) s1 by simp
  have sub: "task_id ` set ts \<subseteq> fst ` set deg1" using Cons.prems(2) a3 by simp
  from Cons.IH[OF s2 sub]
  have b1: "map_of dm' = (\<lambda>k. map_option (\<lambda>l. l @ dependentsOf ts k) (map_of dm1 k))"
    and b2: "\<And>j. getOrZero deg' j = getOrZero deg1 j
            + int (sum_list (map (\<lambda>t. length (filter (\<lambda>d. map_of dm1 (dep_taskId d) \<noteq> None)
                                             (task_dependencies t)))
                             (filter (\<lambda>t. task_id t = j) ts)))"
    and b3: "fst ` set deg' = fst ` set deg1"
    and b4: "distinct (map fst deg1) \<longrightarrow> distinct (map fst deg')"
    by blast+
  have c1: "map_of dm' = (\<lambda>k. map_option (\<lambda>l. l @ dependentsOf (t # ts) k) (map_of dm k))"
    unfolding b1 a1 by (auto simp: fun_eq_iff dependentsOf_def option.map_comp comp_def)
  have c2: "\<forall>j. getOrZero deg' j = getOrZero deg j
            + int (sum_list (map (\<lambda>t. length (filter (\<lambda>d. map_of dm (dep_taskId d) \<noteq> None)
                                             (task_dependencies t)))
                             (filter (\<lambda>t. task_id t = j) (t # ts))))"
    unfolding b2 a2 dom by simp
  show ?case using c1 c2 a3 a4 b3 b4 by simp
qed

lemma filter_task_id:
  "distinct (map task_id ts) \<Longrightarrow> t \<in> set ts \<Longrightarrow> filter (\<lambda>t'. task_id t' = task_id t) ts = [t]"
proof (induction ts)
  case Nil
  then show ?case by simp
next
  case (Cons a ts)
  show ?case
  proof (cases "a = t")
    case True
    then have "filter (\<lambda>t'. task_id t' = task_id t) ts = []"
      using Cons.prems(1) by (auto simp: filter_empty_conv image_iff)
    then show ?thesis using True by simp
  next
    case False
    then have "t \<in> set ts" using Cons.prems(2) by simp
    moreover from this have "task_id a \<noteq> task_id t" using Cons.prems(1) by auto
    ultimately show ?thesis using Cons by simp
  qed
qed

lemma buildGraph_maps:
  assumes b: "buildGraph tasks (initialize tasks) = (dm, deg)"
    and dist: "distinct (map task_id tasks)"
  shows "map_of dm = (\<lambda>k. if k \<in> task_id ` set tasks then Some (dependentsOf tasks k) else None)"
    and "\<forall>t \<in> set tasks. getOrZero deg (task_id t)
           = int (length (filter (\<lambda>d. dep_taskId d \<in> task_id ` set tasks) (task_dependencies t)))"
    and "fst ` set deg = task_id ` set tasks"
    and "distinct (map fst deg)"
proof -
  obtain dm0 deg0 where i: "initialize tasks = (dm0, deg0)" by (cases "initialize tasks")
  note init = initialize_maps[OF i]
  have f: "fold (\<lambda>task. fold (addDependency task) (task_dependencies task)) tasks (dm0, deg0) = (dm, deg)"
    using b i by (simp add: buildGraph_def)
  have sub: "task_id ` set tasks \<subseteq> fst ` set deg0" using init(3) by simp
  from buildGraph_fold[OF f sub]
  have 1: "map_of dm = (\<lambda>k. map_option (\<lambda>l. l @ dependentsOf tasks k) (map_of dm0 k))"
    and 2: "\<And>j. getOrZero deg j = getOrZero deg0 j
            + int (sum_list (map (\<lambda>t. length (filter (\<lambda>d. map_of dm0 (dep_taskId d) \<noteq> None)
                                             (task_dependencies t)))
                             (filter (\<lambda>t. task_id t = j) tasks)))"
    and 3: "fst ` set deg = fst ` set deg0"
    and 4: "distinct (map fst deg0) \<longrightarrow> distinct (map fst deg)"
    by blast+
  show "map_of dm = (\<lambda>k. if k \<in> task_id ` set tasks then Some (dependentsOf tasks k) else None)"
    unfolding 1 init(1) by (auto simp: fun_eq_iff)
  show "\<forall>t \<in> set tasks. getOrZero deg (task_id t)
           = int (length (filter (\<lambda>d. dep_taskId d \<in> task_id ` set tasks) (task_dependencies t)))"
  proof
    fix t assume t: "t \<in> set tasks"
    have z: "getOrZero deg0 (task_id t) = 0"
      using t by (simp add: getOrZero_def Map_get_def init(2))
    have d: "\<And>x. map_of dm0 x \<noteq> None \<longleftrightarrow> x \<in> task_id ` set tasks" by (simp add: init(1))
    show "getOrZero deg (task_id t)
           = int (length (filter (\<lambda>d. dep_taskId d \<in> task_id ` set tasks) (task_dependencies t)))"
      unfolding 2 z d filter_task_id[OF dist t] by simp
  qed
  show "fst ` set deg = task_id ` set tasks" using 3 init(3) by simp
  show "distinct (map fst deg)" using 4 init(4) by simp
qed

lemma count_list_append: "count_list (xs @ ys) x = count_list xs x + count_list ys x"
  by (induction xs) simp_all

lemma count_list_map_const: "count_list (map (\<lambda>d. c) ds) x = (if x = c then length ds else 0)"
  by (induction ds) auto

lemma count_dependentsOf_other:
  "j \<notin> task_id ` set ts \<Longrightarrow> count_list (dependentsOf ts k) j = 0"
  by (induction ts) (auto simp: dependentsOf_def count_list_append count_list_map_const)

lemma count_dependentsOf:
  "distinct (map task_id ts) \<Longrightarrow> t \<in> set ts
     \<Longrightarrow> count_list (dependentsOf ts k) (task_id t)
           = length (filter (\<lambda>d. dep_taskId d = k) (task_dependencies t))"
proof (induction ts)
  case Nil
  then show ?case by simp
next
  case (Cons a ts)
  have split: "dependentsOf (a # ts) k
      = map (\<lambda>d. task_id a) (filter (\<lambda>d. dep_taskId d = k) (task_dependencies a)) @ dependentsOf ts k"
    by (simp add: dependentsOf_def)
  show ?case
  proof (cases "a = t")
    case True
    then have "task_id a \<notin> task_id ` set ts" using Cons.prems(1) by auto
    then have "count_list (dependentsOf ts k) (task_id a) = 0" by (rule count_dependentsOf_other)
    then have "count_list (dependentsOf (a # ts) k) (task_id a)
        = length (filter (\<lambda>d. dep_taskId d = k) (task_dependencies a))"
      by (simp add: split count_list_append count_list_map_const)
    then show ?thesis using True by simp
  next
    case False
    then have t: "t \<in> set ts" using Cons.prems(2) by simp
    then have "task_id a \<noteq> task_id t" using Cons.prems(1) by auto
    then show ?thesis using Cons.IH t Cons.prems(1)
      by (simp add: split count_list_append count_list_map_const)
  qed
qed

lemma set_dependentsOf: "set (dependentsOf tasks k) \<subseteq> task_id ` set tasks"
  by (auto simp: dependentsOf_def)

text \<open>The inner loop over the dependents of the task taken from the queue.\<close>

lemma processDependents_fold:
  assumes "fold processDependent ds (deg, q) = (deg', q')"
  shows "(\<forall>k. getOrZero deg' k = getOrZero deg k - int (count_list ds k))
     \<and> set q' = set q \<union> {k \<in> set ds. 1 \<le> getOrZero deg k \<and> getOrZero deg k \<le> int (count_list ds k)}
     \<and> (queue_ok deg q \<longrightarrow> queue_ok deg' q')"
  using assms
proof (induction ds arbitrary: deg q)
  case Nil
  then show ?case by auto
next
  case (Cons d ds)
  let ?n = "getOrZero deg d - 1"
  let ?deg1 = "Map_set d ?n deg"
  let ?q1 = "if ?n = 0 then q @ [d] else q"
  have f: "fold processDependent ds (?deg1, ?q1) = (deg', q')"
    using Cons.prems by (simp add: Let_def)
  from Cons.IH[OF f]
  have 1: "\<And>k. getOrZero deg' k = getOrZero ?deg1 k - int (count_list ds k)"
    and 2: "set q' = set ?q1 \<union> {k \<in> set ds. 1 \<le> getOrZero ?deg1 k
                                  \<and> getOrZero ?deg1 k \<le> int (count_list ds k)}"
    and 3: "queue_ok ?deg1 ?q1 \<longrightarrow> queue_ok deg' q'"
    by blast+
  have g: "\<And>k. getOrZero ?deg1 k = (if k = d then getOrZero deg d - 1 else getOrZero deg k)"
    by (simp add: getOrZero_Map_set)
  have c: "\<And>k. k \<in> set ds \<longleftrightarrow> 1 \<le> int (count_list ds k)"
    using count_list_0_iff[of ds] by (metis count_notin int_one_le_iff_zero_less not_gr_zero of_nat_0_less_iff)
  have a: "\<forall>k. getOrZero deg' k = getOrZero deg k - int (count_list (d # ds) k)"
    unfolding 1 g by simp
  have b: "set q' = set q \<union> {k \<in> set (d # ds). 1 \<le> getOrZero deg k
                                  \<and> getOrZero deg k \<le> int (count_list (d # ds) k)}"
  proof (rule set_eqI)
    fix k
    show "k \<in> set q' \<longleftrightarrow> k \<in> set q \<union> {k \<in> set (d # ds). 1 \<le> getOrZero deg k
                                  \<and> getOrZero deg k \<le> int (count_list (d # ds) k)}"
    proof (cases "k = d")
      case True
      have "k \<in> set q' \<longleftrightarrow> k \<in> set q \<or> getOrZero deg d = 1
              \<or> (d \<in> set ds \<and> 2 \<le> getOrZero deg d \<and> getOrZero deg d - 1 \<le> int (count_list ds d))"
        unfolding 2 g using True by auto
      also have "\<dots> \<longleftrightarrow> k \<in> set q \<or> (1 \<le> getOrZero deg d \<and> getOrZero deg d \<le> int (count_list ds d) + 1)"
        using c[of d] by auto
      finally show ?thesis using True by (auto simp: add.commute)
    next
      case False
      then show ?thesis unfolding 2 g by auto
    qed
  qed
  have "queue_ok deg q \<longrightarrow> queue_ok ?deg1 ?q1"
    unfolding queue_ok_def g by auto
  then show ?case using a b 3 by blast
qed

lemma dependencies_first_snoc:
  assumes "dependencies_first ids result"
    and "\<forall>d \<in> set (task_dependencies t). dep_taskId d \<in> ids \<longrightarrow> dep_taskId d \<in> task_id ` set result"
  shows "dependencies_first ids (result @ [t])"
  unfolding dependencies_first_def
proof (intro allI impI)
  fix xs u ys
  assume eq: "result @ [t] = xs @ u # ys"
  show "\<forall>d \<in> set (task_dependencies u). dep_taskId d \<in> ids \<longrightarrow> dep_taskId d \<in> task_id ` set xs"
  proof (cases ys rule: rev_cases)
    case Nil
    then have "xs = result" "u = t" using eq by simp_all
    then show ?thesis using assms(2) by simp
  next
    case (snoc ys' y)
    then have "result = xs @ u # ys'" using eq by simp
    then show ?thesis using assms(1) unfolding dependencies_first_def by blast
  qed
qed

lemma pending_zero:
  "pending tasks result t = 0 \<longleftrightarrow>
     (\<forall>d \<in> set (task_dependencies t).
        dep_taskId d \<in> task_id ` set tasks \<longrightarrow> dep_taskId d \<in> task_id ` set result)"
  unfolding pending_def by (auto simp: filter_empty_conv)

lemma length_filter_split:
  assumes "\<And>x. P x \<longleftrightarrow> Q x \<or> R x" "\<And>x. \<not> (Q x \<and> R x)"
  shows "length (filter P xs) = length (filter Q xs) + length (filter R xs)"
  using assms by (induction xs) auto

lemma pending_snoc:
  assumes "task_id tp \<in> task_id ` set tasks" "task_id tp \<notin> task_id ` set result"
  shows "pending tasks result t
     = pending tasks (result @ [tp]) t
       + length (filter (\<lambda>d. dep_taskId d = task_id tp) (task_dependencies t))"
proof -
  define A where "A = task_id ` set tasks"
  define B where "B = task_id ` set result"
  define x where "x = task_id tp"
  have B': "task_id ` set (result @ [tp]) = insert x B" by (simp add: B_def x_def)
  have x: "x \<in> A" "x \<notin> B" using assms by (simp_all add: A_def B_def x_def)
  have "length (filter (\<lambda>d. dep_taskId d \<in> A - B) (task_dependencies t))
      = length (filter (\<lambda>d. dep_taskId d \<in> A - insert x B) (task_dependencies t))
        + length (filter (\<lambda>d. dep_taskId d = x) (task_dependencies t))"
  proof (rule length_filter_split)
    fix d :: TaskDependency
    show "dep_taskId d \<in> A - B \<longleftrightarrow> dep_taskId d \<in> A - insert x B \<or> dep_taskId d = x"
      using x by blast
    show "\<not> (dep_taskId d \<in> A - insert x B \<and> dep_taskId d = x)" by blast
  qed
  then show ?thesis unfolding pending_def B' by (simp add: A_def B_def x_def)
qed

lemma count_list_pos: "x \<in> set xs \<longleftrightarrow> 0 < count_list xs x"
  using count_list_0_iff[of xs x] by auto

lemma kahn_step:
  assumes dist: "distinct (map task_id tasks)"
    and inv: "kahn_inv tasks deg (p # q) result"
    and f: "fold processDependent (dependentsOf tasks p) (deg, q) = (deg', q')"
  shows "\<exists>tp. find (\<lambda>t. task_id t = p) tasks = Some tp \<and> kahn_inv tasks deg' q' (result @ [tp])"
proof -
  let ?ids = "task_id ` set tasks"
  let ?done = "task_id ` set result"
  let ?ds = "dependentsOf tasks p"
  have sub: "set result \<subseteq> set tasks"
    and dq: "distinct (map task_id result @ p # q)"
    and qids: "set (p # q) \<subseteq> ?ids"
    and I2: "\<And>t. t \<in> set tasks \<Longrightarrow> getOrZero deg (task_id t) = int (pending tasks result t)"
    and I3: "\<And>t. t \<in> set tasks \<Longrightarrow>
               (task_id t \<in> ?done \<union> set (p # q)) = (pending tasks result t = 0)"
    and df: "dependencies_first ?ids result"
    using inv unfolding kahn_inv_def by blast+
  from qids obtain tp where tp: "tp \<in> set tasks" "task_id tp = p" by auto
  have fnd: "find (\<lambda>t. task_id t = p) tasks = Some tp"
    using find_task_distinct[OF dist, of p tp] tp by simp
  have pnd: "p \<notin> ?done" using dq by auto
  have pq: "p \<notin> set q" using dq by auto
  from processDependents_fold[OF f]
  have F1: "\<And>k. getOrZero deg' k = getOrZero deg k - int (count_list ?ds k)"
    and F2: "set q' = set q \<union> {k \<in> set ?ds. 1 \<le> getOrZero deg k
                                 \<and> getOrZero deg k \<le> int (count_list ?ds k)}"
    and F3: "queue_ok deg q \<longrightarrow> queue_ok deg' q'"
    by blast+
  have cnt: "\<And>t. t \<in> set tasks \<Longrightarrow> count_list ?ds (task_id t)
               = length (filter (\<lambda>d. dep_taskId d = p) (task_dependencies t))"
    by (rule count_dependentsOf[OF dist])
  have split: "\<And>t. t \<in> set tasks \<Longrightarrow> pending tasks result t
                 = pending tasks (result @ [tp]) t + count_list ?ds (task_id t)"
  proof -
    fix t assume t: "t \<in> set tasks"
    have a: "task_id tp \<in> ?ids" using tp(1) by simp
    have b: "task_id tp \<notin> ?done" using pnd tp(2) by simp
    show "pending tasks result t = pending tasks (result @ [tp]) t + count_list ?ds (task_id t)"
      using pending_snoc[OF a b, of t] cnt[OF t] tp(2) by simp
  qed
  have J2: "\<forall>t \<in> set tasks. getOrZero deg' (task_id t) = int (pending tasks (result @ [tp]) t)"
    using F1 I2 split by simp
  have qok: "queue_ok deg q"
    unfolding queue_ok_def
  proof (intro conjI ballI)
    show "distinct q" using dq by simp
  next
    fix k assume k: "k \<in> set q"
    then obtain t where t: "t \<in> set tasks" "task_id t = k" using qids by auto
    then have "pending tasks result t = 0" using I3[OF t(1)] k by simp
    then show "getOrZero deg k \<le> 0" using I2[OF t(1)] t(2) by simp
  qed
  then have dq': "distinct q'" using F3 by (simp add: queue_ok_def)
  have mem: "\<And>t. t \<in> set tasks \<Longrightarrow>
       task_id t \<in> set q' \<longleftrightarrow> task_id t \<in> set q
         \<or> (0 < count_list ?ds (task_id t) \<and> 1 \<le> pending tasks result t
             \<and> pending tasks result t \<le> count_list ?ds (task_id t))"
    unfolding F2 using I2 by (auto simp: count_list_pos)
  have J3: "\<forall>t \<in> set tasks. (task_id t \<in> task_id ` set (result @ [tp]) \<union> set q')
              = (pending tasks (result @ [tp]) t = 0)"
  proof
    fix t assume t: "t \<in> set tasks"
    show "(task_id t \<in> task_id ` set (result @ [tp]) \<union> set q')
              = (pending tasks (result @ [tp]) t = 0)"
    proof (cases "task_id t \<in> ?done \<union> set (p # q)")
      case True
      then have "pending tasks result t = 0" using I3[OF t] by simp
      then have "pending tasks (result @ [tp]) t = 0" using split[OF t] by simp
      moreover have "task_id t \<in> task_id ` set (result @ [tp]) \<union> set q'"
        using True tp(2) mem[OF t] by auto
      ultimately show ?thesis by simp
    next
      case False
      then have pos: "1 \<le> pending tasks result t" using I3[OF t] by simp
      have "task_id t \<in> task_id ` set (result @ [tp]) \<union> set q' \<longleftrightarrow> task_id t \<in> set q'"
        using False tp(2) by auto
      also have "\<dots> \<longleftrightarrow> 0 < count_list ?ds (task_id t)
             \<and> pending tasks result t \<le> count_list ?ds (task_id t)"
        using mem[OF t] False pos by auto
      also have "\<dots> \<longleftrightarrow> pending tasks (result @ [tp]) t = 0"
        using split[OF t] pos by auto
      finally show ?thesis .
    qed
  qed
  have new: "\<And>k. k \<in> set q' \<Longrightarrow> k \<notin> set q \<Longrightarrow> k \<in> ?ids \<and> k \<notin> ?done \<and> k \<noteq> p"
  proof -
    fix k assume k: "k \<in> set q'" "k \<notin> set q"
    then have kd: "k \<in> set ?ds" and k1: "1 \<le> getOrZero deg k" using F2 by auto
    then have ki: "k \<in> ?ids" using set_dependentsOf[of tasks p] by auto
    then obtain t where t: "t \<in> set tasks" "task_id t = k" by auto
    have "pending tasks result t \<noteq> 0" using k1 I2[OF t(1)] t(2) by simp
    then have "k \<notin> ?done \<union> set (p # q)" using I3[OF t(1)] t(2) by simp
    then show "k \<in> ?ids \<and> k \<notin> ?done \<and> k \<noteq> p" using ki by simp
  qed
  have J1: "distinct (map task_id (result @ [tp]) @ q')"
  proof -
    have a: "distinct (map task_id result)" using dq by simp
    have b: "\<And>k. k \<in> set q' \<Longrightarrow> k \<notin> ?done \<and> k \<noteq> p"
    proof -
      fix k assume k: "k \<in> set q'"
      show "k \<notin> ?done \<and> k \<noteq> p"
      proof (cases "k \<in> set q")
        case True
        then show ?thesis using dq by auto
      next
        case False
        then show ?thesis using new[OF k] by simp
      qed
    qed
    show ?thesis using a b dq' pnd tp(2) by auto
  qed
  have J0: "set q' \<subseteq> ?ids"
  proof
    fix k assume k: "k \<in> set q'"
    show "k \<in> ?ids"
    proof (cases "k \<in> set q")
      case True
      then show ?thesis using qids by auto
    next
      case False
      then show ?thesis using new[OF k] by simp
    qed
  qed
  have "pending tasks result tp = 0" using I3[OF tp(1)] tp(2) by simp
  then have J4: "dependencies_first ?ids (result @ [tp])"
    using dependencies_first_snoc[OF df] pending_zero[of tasks result tp] by simp
  have "kahn_inv tasks deg' q' (result @ [tp])"
    unfolding kahn_inv_def using sub tp(1) J0 J1 J2 J3 J4 by simp
  then show ?thesis using fnd by simp
qed

lemma finite_dependsOn: "finite (dependsOn tasks)"
proof (rule finite_subset)
  show "dependsOn tasks \<subseteq> (task_id ` set tasks) \<times> (task_id ` set tasks)"
    by (auto simp: dependsOn_def)
  show "finite ((task_id ` set tasks) \<times> (task_id ` set tasks))" by simp
qed

lemma kahn_final:
  assumes dist: "distinct (map task_id tasks)"
    and ac: "acyclic (dependsOn tasks)"
    and inv: "kahn_inv tasks deg [] result"
  shows "set result = set tasks \<and> distinct (map task_id result)
         \<and> dependencies_first (task_id ` set tasks) result"
proof -
  let ?ids = "task_id ` set tasks"
  let ?done = "task_id ` set result"
  have sub: "set result \<subseteq> set tasks"
    and dq: "distinct (map task_id result)"
    and I3: "\<And>t. t \<in> set tasks \<Longrightarrow> (task_id t \<in> ?done) = (pending tasks result t = 0)"
    and df: "dependencies_first ?ids result"
    using inv unfolding kahn_inv_def by simp_all
  have wf: "wf ((dependsOn tasks)\<inverse>)"
    using finite_acyclic_wf_converse[OF finite_dependsOn ac] .
  have all: "?ids \<subseteq> ?done"
  proof (rule ccontr)
    assume "\<not> ?ids \<subseteq> ?done"
    then obtain k where k: "k \<in> ?ids - ?done" by blast
    from wfE_min[OF wf k] obtain z where z: "z \<in> ?ids - ?done"
      and min: "\<And>y. (y, z) \<in> (dependsOn tasks)\<inverse> \<Longrightarrow> y \<notin> ?ids - ?done"
      by blast
    from z obtain t where t: "t \<in> set tasks" "task_id t = z" by auto
    have "pending tasks result t \<noteq> 0" using I3[OF t(1)] t(2) z by simp
    then obtain d where d: "d \<in> set (task_dependencies t)" "dep_taskId d \<in> ?ids"
      "dep_taskId d \<notin> ?done"
      unfolding pending_zero by blast
    have "(z, dep_taskId d) \<in> dependsOn tasks" using dependsOn_edge[OF t(1) d(1,2)] t(2) by simp
    then have "dep_taskId d \<notin> ?ids - ?done" using min by simp
    then show False using d(2,3) by simp
  qed
  have inj: "inj_on task_id (set tasks)" using dist by (simp add: distinct_map)
  have "set tasks \<subseteq> set result"
  proof
    fix t assume t: "t \<in> set tasks"
    then have "task_id t \<in> ?done" using all by blast
    then obtain t' where t': "t' \<in> set result" "task_id t' = task_id t" by auto
    then have "t' = t" using inj t sub by (auto dest: inj_onD)
    then show "t \<in> set result" using t'(1) by simp
  qed
  then show ?thesis using sub dq df by auto
qed

lemma whileLoop_spec:
  "distinct (map task_id tasks)
   \<Longrightarrow> map_of dm = (\<lambda>k. if k \<in> task_id ` set tasks then Some (dependentsOf tasks k) else None)
   \<Longrightarrow> acyclic (dependsOn tasks)
   \<Longrightarrow> kahn_inv tasks deg q result
   \<Longrightarrow> set (whileLoop tasks dm deg q result) = set tasks
       \<and> distinct (map task_id (whileLoop tasks dm deg q result))
       \<and> dependencies_first (task_id ` set tasks) (whileLoop tasks dm deg q result)"
proof (induction tasks dm deg q result rule: whileLoop.induct)
  case (1 tasks dm deg result)
  from kahn_final[OF 1(1,3,4)] show ?case by simp
next
  case (2 tasks dm deg p q result)
  have "p \<in> task_id ` set tasks" using 2(5) by (simp add: kahn_inv_def)
  then have ds: "(case Map_get dm p of Some ds \<Rightarrow> ds | None \<Rightarrow> []) = dependentsOf tasks p"
    using 2(3) by (simp add: Map_get_def)
  obtain deg' q' where f: "fold processDependent (dependentsOf tasks p) (deg, q) = (deg', q')"
    by (cases "fold processDependent (dependentsOf tasks p) (deg, q)")
  from kahn_step[OF 2(2) 2(5) f] obtain tp where
    fnd: "find (\<lambda>t. task_id t = p) tasks = Some tp"
    and inv': "kahn_inv tasks deg' q' (result @ [tp])" by blast
  have eq: "whileLoop tasks dm deg (p # q) result = whileLoop tasks dm deg' q' (result @ [tp])"
    using ds f fnd by (simp add: Let_def)
  have "set (whileLoop tasks dm (fst (deg', q')) (snd (deg', q')) (result @ [tp])) = set tasks
       \<and> distinct (map task_id (whileLoop tasks dm (fst (deg', q')) (snd (deg', q')) (result @ [tp])))
       \<and> dependencies_first (task_id ` set tasks)
            (whileLoop tasks dm (fst (deg', q')) (snd (deg', q')) (result @ [tp]))"
  proof (rule 2(1)[OF _ _ _ 2(2,3,4)])
    show "result @ [tp] = (case find (\<lambda>t. task_id t = p) tasks of
                             Some currentTask \<Rightarrow> result @ [currentTask] | None \<Rightarrow> result)"
      using fnd by simp
    show "dependentsOf tasks p = (case Map_get dm p of Some ds \<Rightarrow> ds | None \<Rightarrow> [])"
      using ds by simp
    show "(deg', q') = fold processDependent (dependentsOf tasks p) (deg, q)" using f by simp
    show "kahn_inv tasks (fst (deg', q')) (snd (deg', q')) (result @ [tp])" using inv' by simp
  qed
  then show ?case unfolding eq by simp
qed

lemma initialQueue_member:
  assumes "distinct (map fst deg)"
  shows "k \<in> set (initialQueue deg) \<longleftrightarrow> k \<in> fst ` set deg \<and> getOrZero deg k = 0"
proof -
  have "k \<in> set (initialQueue deg) \<longleftrightarrow> (k, 0) \<in> set deg"
    by (force simp: initialQueue_def)
  also have "\<dots> \<longleftrightarrow> map_of deg k = Some 0" using assms by simp
  also have "\<dots> \<longleftrightarrow> k \<in> fst ` set deg \<and> getOrZero deg k = 0"
  proof (cases "map_of deg k")
    case None
    then have "k \<notin> fst ` set deg" by (simp add: map_of_eq_None_iff)
    then show ?thesis using None by simp
  next
    case (Some n)
    then have "k \<in> fst ` set deg" by (metis map_of_eq_None_iff option.distinct(1))
    then show ?thesis using Some by (simp add: getOrZero_def Map_get_def)
  qed
  finally show ?thesis .
qed

lemma kahn_inv_initial:
  assumes b: "buildGraph tasks (initialize tasks) = (dm, deg)"
    and dist: "distinct (map task_id tasks)"
  shows "kahn_inv tasks deg (initialQueue deg) []"
proof -
  note g = buildGraph_maps[OF b dist]
  have p0: "\<And>t. pending tasks [] t
      = length (filter (\<lambda>d. dep_taskId d \<in> task_id ` set tasks) (task_dependencies t))"
    by (simp add: pending_def)
  have 1: "distinct (initialQueue deg)"
    unfolding initialQueue_def using g(4) by (rule distinct_map_filter)
  have 2: "set (initialQueue deg) \<subseteq> task_id ` set tasks"
    using initialQueue_member[OF g(4)] g(3) by auto
  have 3: "\<forall>t \<in> set tasks. getOrZero deg (task_id t) = int (pending tasks [] t)"
    using g(2) p0 by simp
  have 4: "\<forall>t \<in> set tasks. task_id t \<in> task_id ` set [] \<union> set (initialQueue deg)
             \<longleftrightarrow> pending tasks [] t = 0"
    using initialQueue_member[OF g(4)] g(3) 3 by auto
  have 5: "dependencies_first (task_id ` set tasks) []" by (simp add: dependencies_first_def)
  show ?thesis unfolding kahn_inv_def using 1 2 3 4 5 by simp
qed

text \<open>
  The result of \<open>getTaskExecutionOrder\<close> in terms of the tasks its query returns.
\<close>

lemma getTaskExecutionOrder_query:
  assumes "distinct (map task_id store)"
    and "tasks = queryTasks store \<lparr> q_orchestrationId = Some orchestrationId, q_status = None \<rparr>"
    and "\<not> (\<exists>x. (x, x) \<in> (dependsOn tasks)\<^sup>+)"
    and "result = getTaskExecutionOrder store orchestrationId"
  shows "set result = set tasks \<and> distinct (map task_id result) \<and> length result = length tasks
     \<and> (\<forall>t \<in> set tasks. \<forall>d \<in> set (task_dependencies t).
           dep_taskId d \<in> task_id ` set tasks \<longrightarrow>
           (\<exists>xs p ys zs. result = xs @ p # ys @ t # zs \<and> task_id p = dep_taskId d))"
proof -
  have dist: "distinct (map task_id tasks)" using assms(1,2) by (simp add: distinct_queryTasks)
  have ac: "acyclic (dependsOn tasks)" using assms(3) by (simp add: acyclic_def)
  obtain dm deg where b: "buildGraph tasks (initialize tasks) = (dm, deg)"
    by (cases "buildGraph tasks (initialize tasks)")
  have r: "result = whileLoop tasks dm deg (initialQueue deg) []"
    using assms(2,4) b by (simp add: getTaskExecutionOrder_def Let_def)
  from whileLoop_spec[OF dist buildGraph_maps(1)[OF b dist] ac kahn_inv_initial[OF b dist]]
  have s: "set result = set tasks" and d: "distinct (map task_id result)"
    and df: "dependencies_first (task_id ` set tasks) result"
    unfolding r by simp_all
  have "distinct result" "distinct tasks" using d dist by (auto simp: distinct_map)
  then have len: "length result = length tasks" using s by (metis distinct_card)
  have ord: "\<forall>t \<in> set tasks. \<forall>d \<in> set (task_dependencies t).
           dep_taskId d \<in> task_id ` set tasks \<longrightarrow>
           (\<exists>xs p ys zs. result = xs @ p # ys @ t # zs \<and> task_id p = dep_taskId d)"
  proof (intro ballI impI)
    fix t d
    assume t: "t \<in> set tasks" and dd: "d \<in> set (task_dependencies t)"
      and i: "dep_taskId d \<in> task_id ` set tasks"
    have "t \<in> set result" using t s by simp
    then obtain as zs where sp: "result = as @ t # zs" by (auto dest: split_list)
    then have "dep_taskId d \<in> task_id ` set as"
      using df dd i unfolding dependencies_first_def by blast
    then obtain p where p: "p \<in> set as" "task_id p = dep_taskId d" by auto
    then obtain xs ys where "as = xs @ p # ys" by (auto dest: split_list)
    then have "result = xs @ p # ys @ t # zs" using sp by simp
    then show "\<exists>xs p ys zs. result = xs @ p # ys @ t # zs \<and> task_id p = dep_taskId d"
      using p(2) by blast
  qed
  show ?thesis using s d len ord by blast
qed

text \<open>
  C8. Let the store hold one task per id. For a non-empty orchestration id the tasks
  ordered are the tasks of the store that carry this id; for the empty id the query does
  not filter, and they are all tasks of the store. When the dependency edges between
  these tasks contain no directed cycle, the list returned by
  \<open>getTaskExecutionOrder\<close> contains each of them exactly once and no other task, and
  for every dependency of a task \<open>t\<close> that names one of them, the task named (the one
  \<open>t\<close> depends on) stands before \<open>t\<close> in the list.
\<close>

theorem getTaskExecutionOrder_topological:
  assumes "distinct (map task_id store)"
    and "tasks = (if orchestrationId = [] then store
                  else orchestrationTasks store orchestrationId)"
    and "\<not> (\<exists>x. (x, x) \<in> (dependsOn tasks)\<^sup>+)"
    and "result = getTaskExecutionOrder store orchestrationId"
  shows "set result = set tasks \<and> distinct (map task_id result) \<and> length result = length tasks
     \<and> (\<forall>t \<in> set tasks. \<forall>d \<in> set (task_dependencies t).
           dep_taskId d \<in> task_id ` set tasks \<longrightarrow>
           (\<exists>xs p ys zs. result = xs @ p # ys @ t # zs \<and> task_id p = dep_taskId d))"
proof -
  let ?q = "queryTasks store \<lparr> q_orchestrationId = Some orchestrationId, q_status = None \<rparr>"
  have s: "set ?q = set tasks" using assms(2) queryTasks_orchestration[of store orchestrationId] by simp
  have d: "dependsOn ?q = dependsOn tasks" using s by (rule dependsOn_set)
  have ac: "\<not> (\<exists>x. (x, x) \<in> (dependsOn ?q)\<^sup>+)" using assms(3) unfolding d .
  note t = getTaskExecutionOrder_query[OF assms(1) refl ac assms(4)]
  have "distinct (map task_id tasks)"
    using assms(1,2) by (auto simp: orchestrationTasks_def distinct_map_filter)
  then have "distinct tasks" by (auto simp: distinct_map)
  moreover have "distinct ?q" using distinct_queryTasks[OF assms(1)] by (auto simp: distinct_map)
  ultimately have "length ?q = length tasks" using s by (metis distinct_card)
  then show ?thesis using t unfolding s by simp
qed

lemma acyclicStore_acyclic: "\<not> (\<exists>x. (x, x) \<in> (dependsOn acyclicStore)\<^sup>+)"
proof -
  have d: "distinct (map task_id acyclicStore)" by code_simp
  have e: "map_option (\<lambda>r. cycles (snd r))
             (tasksLoop (Suc (length acyclicStore)) acyclicStore acyclicStore
                (True, \<lparr> visited = {}, recursionStack = {}, cycles = [] \<rparr>)) = Some []"
    by code_simp
  from validate_tasks[OF d, of True] e have "acyclic (dependsOn acyclicStore)" by auto
  then show ?thesis by (simp add: acyclic_def)
qed

theorem getTaskExecutionOrder_topological_witness:
  "distinct (map task_id acyclicStore)
   \<and> orchestrationTasks acyclicStore ''orch-1'' = acyclicStore
   \<and> \<not> (\<exists>x. (x, x) \<in> (dependsOn acyclicStore)\<^sup>+)
   \<and> map task_id (getTaskExecutionOrder acyclicStore ''orch-1'') = [''c'', ''b'', ''a'']
   \<and> set (getTaskExecutionOrder acyclicStore ''orch-1'') = set acyclicStore
   \<and> length (getTaskExecutionOrder acyclicStore ''orch-1'') = 3
   \<and> (\<exists>xs p ys zs. getTaskExecutionOrder acyclicStore ''orch-1''
          = xs @ p # ys @ graphTask ''a'' [''b'', ''c''] 1 # zs \<and> task_id p = ''b'')"
proof -
  let ?R = "getTaskExecutionOrder acyclicStore ''orch-1''"
  have d: "distinct (map task_id acyclicStore)" by code_simp
  have o: "orchestrationTasks acyclicStore ''orch-1'' = acyclicStore" by code_simp
  have t0: "acyclicStore = (if ''orch-1'' = [] then acyclicStore
                            else orchestrationTasks acyclicStore ''orch-1'')"
    using o by simp
  have m: "map task_id ?R = [''c'', ''b'', ''a'']" by code_simp
  note t = getTaskExecutionOrder_topological[OF d t0 acyclicStore_acyclic refl]
  have s: "set ?R = set acyclicStore" and l: "length ?R = length acyclicStore" using t by blast+
  have ord: "\<forall>t \<in> set acyclicStore. \<forall>d \<in> set (task_dependencies t).
           dep_taskId d \<in> task_id ` set acyclicStore \<longrightarrow>
           (\<exists>xs p ys zs. ?R = xs @ p # ys @ t # zs \<and> task_id p = dep_taskId d)"
    using t by blast
  have mem: "graphTask ''a'' [''b'', ''c''] 1 \<in> set acyclicStore" by (simp add: acyclicStore_def)
  have dd: "\<lparr> dep_taskId = ''b'', dep_type = FINISH_TO_START \<rparr>
              \<in> set (task_dependencies (graphTask ''a'' [''b'', ''c''] 1))"
    by (simp add: graphTask_def)
  have i: "''b'' \<in> task_id ` set acyclicStore" by (simp add: acyclicStore_def graphTask_def)
  have e: "\<exists>xs p ys zs. ?R = xs @ p # ys @ graphTask ''a'' [''b'', ''c''] 1 # zs \<and> task_id p = ''b''"
    using ord[rule_format, OF mem dd] i by simp
  have l3: "length ?R = 3" using l by (simp add: acyclicStore_def)
  show ?thesis using d o acyclicStore_acyclic m s l3 e by blast
qed

lemma dependsOn_stray: "dependsOn [orchTask '''' ''a'' [''x''] 1] = {}"
  by (auto simp: dependsOn_def orchTask_def graphTask_def)

text \<open>
  The claim as written fails for the orchestration with the empty id: its only task
  \<open>a\<close> depends on \<open>x\<close> of \<open>orch-1\<close>, which is no task of its orchestration, so its
  edges contain no cycle; the call orders all tasks of the store together, \<open>x\<close> and
  \<open>y\<close> depend on each other, and the list returned is empty.
\<close>

theorem getTaskExecutionOrder_empty_id_counterexample:
  "distinct (map task_id strayStore)
   \<and> orchestrationTasks strayStore '''' = [orchTask '''' ''a'' [''x''] 1]
   \<and> \<not> (\<exists>x. (x, x) \<in> (dependsOn (orchestrationTasks strayStore ''''))\<^sup>+)
   \<and> getTaskExecutionOrder strayStore '''' = []"
proof -
  have o: "orchestrationTasks strayStore '''' = [orchTask '''' ''a'' [''x''] 1]" by code_simp
  have d: "distinct (map task_id strayStore)" by code_simp
  have e: "getTaskExecutionOrder strayStore '''' = []" by code_simp
  have c: "\<not> (\<exists>x. (x, x) \<in> (dependsOn (orchestrationTasks strayStore ''''))\<^sup>+)"
    unfolding o dependsOn_stray by simp
  show ?thesis using o d e c by blast
qed

end
